theory Spec2Isabelle
  imports Main
begin

section \<open>The reciprocating lock of \<open>reciplock.h\<close>\<close>

text \<open>
  The theory embeds \<open>examples/tilt/deps/reciplock/include/reciplock.h\<close> as it is compiled,
  that is with \<open>TLS_IMPLEMENTATION\<close> set to 1: \<open>reciplock_acquire(lock)\<close> and
  \<open>reciplock_release(lock)\<close> take the lock only, the waiting element is the thread-local
  \<open>tls_wait_node\<close>, and the context travels in the thread-local variables
  \<open>tls_successor\<close> and \<open>tls_end_of_segment\<close>.

  Threads are numbered by naturals. Every access to \<open>lock->tail\<close> and to a node's
  \<open>next\<close> field in the source is an atomic operation; the model makes each of them one
  step of the calling thread and interleaves the steps of all threads (sequentially
  consistent atomics). The computations on locals between two atomic operations belong to
  the step of the atomic operation before them.
\<close>

subsection \<open>Pointers\<close>

text \<open>
  A value of type \<open>reciplock_node_t *\<close> in this program is the null pointer, the
  constant \<open>LOCKED_EMPTY = (reciplock_node_t *)(uintptr_t) 1\<close>, or the address of the
  \<open>tls_wait_node\<close> of some thread.
\<close>

datatype ptr = NULL | LOCKED_EMPTY | Node nat

text \<open>
  \<open>(reciplock_node_t *)(((uintptr_t) p) & ~1)\<close>: clears bit 0. The address of a node is
  aligned, so its bit 0 is clear already; \<open>1 & ~1\<close> and \<open>0 & ~1\<close> are 0.
\<close>

fun clear_bit0 :: "ptr \<Rightarrow> ptr" where
  "clear_bit0 NULL = NULL"
| "clear_bit0 LOCKED_EMPTY = NULL"
| "clear_bit0 (Node n) = Node n"

subsection \<open>State\<close>

text \<open>
  The control points of a thread. Each names the atomic operation the thread performs next:
  \<^item> \<open>Idle\<close>: outside the lock; the next step is the store of line 97, the first of
    \<open>reciplock_acquire\<close>;
  \<^item> \<open>A_xchg\<close>: the exchange on \<open>lock->tail\<close> of line 103;
  \<^item> \<open>A_spin\<close>: the load of \<open>tls_wait_node.next\<close> of line 115;
  \<^item> \<open>Held\<close>: \<open>reciplock_acquire\<close> has returned; the next step is the call of
    \<open>reciplock_release\<close> with the load of \<open>lock->tail\<close> in the assertion of line 145;
  \<^item> \<open>R_asucc\<close>: the load of \<open>tls_successor->next\<close> in the assertion of line 148;
  \<^item> \<open>R_store\<close>: the store to \<open>tls_successor->next\<close> of line 151;
  \<^item> \<open>R_load\<close>: the load of \<open>lock->tail\<close> of line 166;
  \<^item> \<open>R_cas\<close>: the compare-and-exchange of line 168;
  \<^item> \<open>R_xchg\<close>: the exchange of line 176;
  \<^item> \<open>R_aw\<close>: the load of \<open>w->next\<close> in the assertion of line 180;
  \<^item> \<open>R_pass\<close>: the store to \<open>w->next\<close> of line 183;
  \<^item> \<open>Failed\<close>: an assertion has failed, or a pointer that is no node was dereferenced.
\<close>

datatype label =
  Idle | A_xchg | A_spin | Held | R_asucc | R_store | R_load | R_cas | R_xchg | R_aw | R_pass
  | Failed

text \<open>
  The shared memory is \<open>tail\<close> (the field of the one \<open>reciplock_t\<close>) and \<open>node_next\<close>
  (\<open>node_next s t\<close> is the field \<open>next\<close> of the \<open>tls_wait_node\<close> of thread \<open>t\<close>).
  The other fields are per thread: the control point, the locals \<open>tail_prev\<close>, \<open>succ\<close>
  and \<open>segment_end\<close> of \<open>reciplock_acquire\<close>, the thread-local variables
  \<open>tls_successor\<close> and \<open>tls_end_of_segment\<close>, and the local \<open>w\<close> of
  \<open>reciplock_release\<close>.
\<close>

record state =
  tail :: ptr
  node_next :: "nat \<Rightarrow> ptr"
  pc :: "nat \<Rightarrow> label"
  tail_prev :: "nat \<Rightarrow> ptr"
  succ :: "nat \<Rightarrow> ptr"
  segment_end :: "nat \<Rightarrow> ptr"
  tls_successor :: "nat \<Rightarrow> ptr"
  tls_end_of_segment :: "nat \<Rightarrow> ptr"
  w :: "nat \<Rightarrow> ptr"

text \<open>\<open>reciplock_init\<close>, line 71.\<close>

definition reciplock_init :: "state \<Rightarrow> state" where
  "reciplock_init s = s\<lparr>tail := NULL\<rparr>"

subsection \<open>Steps\<close>

definition goto :: "nat \<Rightarrow> label \<Rightarrow> state \<Rightarrow> state" where
  "goto t l s = s\<lparr>pc := (pc s)(t := l)\<rparr>"

text \<open>Lines 97 to 100: the store that resets the node, and the two initialised locals.\<close>

definition acquire_reset :: "nat \<Rightarrow> state \<Rightarrow> state" where
  "acquire_reset t s =
     goto t A_xchg
       (s\<lparr>node_next := (node_next s)(t := NULL),
          succ := (succ s)(t := NULL),
          segment_end := (segment_end s)(t := Node t)\<rparr>)"

text \<open>Lines 127 to 133: the context goes to thread-local storage, the function returns.\<close>

definition acquire_return :: "nat \<Rightarrow> state \<Rightarrow> state" where
  "acquire_return t s =
     goto t Held
       (s\<lparr>tls_successor := (tls_successor s)(t := succ s t),
          tls_end_of_segment := (tls_end_of_segment s)(t := segment_end s t)\<rparr>)"

text \<open>Lines 103 to 111: the exchange, its assertion, and the branch on \<open>tail_prev\<close>.\<close>

definition acquire_exchange :: "nat \<Rightarrow> state \<Rightarrow> state" where
  "acquire_exchange t s =
     (let s1 = s\<lparr>tail := Node t, tail_prev := (tail_prev s)(t := tail s)\<rparr> in
      if tail_prev s1 t = Node t then goto t Failed s1
      else if tail_prev s1 t \<noteq> NULL then
        (let s2 = s1\<lparr>succ := (succ s1)(t := clear_bit0 (tail_prev s1 t))\<rparr> in
         if succ s2 t = Node t then goto t Failed s2 else goto t A_spin s2)
      else acquire_return t s1)"

text \<open>Lines 115 to 125: one iteration of the spin loop and, when it leaves, what follows.\<close>

definition acquire_spin :: "nat \<Rightarrow> state \<Rightarrow> state" where
  "acquire_spin t s =
     (let s1 = s\<lparr>segment_end := (segment_end s)(t := node_next s t)\<rparr> in
      if segment_end s1 t = NULL then s1
      else if segment_end s1 t = Node t then goto t Failed s1
      else if succ s1 t = segment_end s1 t then
        acquire_return t
          (s1\<lparr>succ := (succ s1)(t := NULL),
              segment_end := (segment_end s1)(t := LOCKED_EMPTY)\<rparr>)
      else acquire_return t s1)"

text \<open>Lines 144 to 155: the entry of \<open>reciplock_release\<close>.\<close>

definition release_entry :: "nat \<Rightarrow> state \<Rightarrow> state" where
  "release_entry t s =
     (if tls_end_of_segment s t = NULL then goto t Failed s
      else if tail s = NULL then goto t Failed s
      else if tls_successor s t \<noteq> NULL then goto t R_asucc s
      else if \<not> (tls_end_of_segment s t = LOCKED_EMPTY \<or> tls_end_of_segment s t = Node t)
        then goto t Failed s
      else goto t R_load s)"

text \<open>Line 148.\<close>

definition release_assert_succ :: "nat \<Rightarrow> state \<Rightarrow> state" where
  "release_assert_succ t s =
     (case tls_successor s t of
        Node u \<Rightarrow> if node_next s u = NULL then goto t R_store s else goto t Failed s
      | _ \<Rightarrow> goto t Failed s)"

text \<open>Lines 151 and 152.\<close>

definition release_store :: "nat \<Rightarrow> state \<Rightarrow> state" where
  "release_store t s =
     (case tls_successor s t of
        Node u \<Rightarrow> goto t Idle (s\<lparr>node_next := (node_next s)(u := tls_end_of_segment s t)\<rparr>)
      | _ \<Rightarrow> goto t Failed s)"

text \<open>Line 166.\<close>

definition release_load :: "nat \<Rightarrow> state \<Rightarrow> state" where
  "release_load t s =
     (if tail s = tls_end_of_segment s t then goto t R_cas s else goto t R_xchg s)"

text \<open>Lines 167 to 171.\<close>

definition release_cas :: "nat \<Rightarrow> state \<Rightarrow> state" where
  "release_cas t s =
     (if tail s = tls_end_of_segment s t then goto t Idle (s\<lparr>tail := NULL\<rparr>)
      else goto t R_xchg s)"

text \<open>Lines 176 to 179.\<close>

definition release_exchange :: "nat \<Rightarrow> state \<Rightarrow> state" where
  "release_exchange t s =
     (let s1 = s\<lparr>tail := LOCKED_EMPTY, w := (w s)(t := tail s)\<rparr> in
      if w s1 t = NULL \<or> w s1 t = LOCKED_EMPTY \<or> w s1 t = Node t then goto t Failed s1
      else goto t R_aw s1)"

text \<open>Line 180.\<close>

definition release_assert_w :: "nat \<Rightarrow> state \<Rightarrow> state" where
  "release_assert_w t s =
     (case w s t of
        Node u \<Rightarrow> if node_next s u = NULL then goto t R_pass s else goto t Failed s
      | _ \<Rightarrow> goto t Failed s)"

text \<open>Line 183.\<close>

definition release_pass :: "nat \<Rightarrow> state \<Rightarrow> state" where
  "release_pass t s =
     (case w s t of
        Node u \<Rightarrow> goto t Idle (s\<lparr>node_next := (node_next s)(u := tls_end_of_segment s t)\<rparr>)
      | _ \<Rightarrow> goto t Failed s)"

text \<open>
  One step of thread \<open>t\<close>. A thread at \<open>Idle\<close> steps by calling \<open>reciplock_acquire\<close>, a
  thread at \<open>Held\<close> by calling \<open>reciplock_release\<close>; a failed thread does not move.
\<close>

definition step :: "nat \<Rightarrow> state \<Rightarrow> state" where
  "step t s =
     (case pc s t of
        Idle \<Rightarrow> acquire_reset t s
      | A_xchg \<Rightarrow> acquire_exchange t s
      | A_spin \<Rightarrow> acquire_spin t s
      | Held \<Rightarrow> release_entry t s
      | R_asucc \<Rightarrow> release_assert_succ t s
      | R_store \<Rightarrow> release_store t s
      | R_load \<Rightarrow> release_load t s
      | R_cas \<Rightarrow> release_cas t s
      | R_xchg \<Rightarrow> release_exchange t s
      | R_aw \<Rightarrow> release_assert_w t s
      | R_pass \<Rightarrow> release_pass t s
      | Failed \<Rightarrow> s)"

text \<open>An interleaving is the list of the threads that step, in order.\<close>

fun run :: "nat list \<Rightarrow> state \<Rightarrow> state" where
  "run [] s = s"
| "run (t # ts) s = run ts (step t s)"

text \<open>
  A state is initial when the lock is initialised and no thread is inside an operation; the
  locals, the thread-local variables and the nodes hold anything. \<open>init_state\<close> is the one
  with zero-initialised thread-local storage.
\<close>

definition initial :: "state \<Rightarrow> bool" where
  "initial s \<longleftrightarrow> tail s = NULL \<and> (\<forall>t. pc s t = Idle)"

definition init_state :: state where
  "init_state =
     \<lparr>tail = NULL, node_next = (\<lambda>_. NULL), pc = (\<lambda>_. Idle), tail_prev = (\<lambda>_. NULL),
      succ = (\<lambda>_. NULL), segment_end = (\<lambda>_. NULL), tls_successor = (\<lambda>_. NULL),
      tls_end_of_segment = (\<lambda>_. NULL), w = (\<lambda>_. NULL)\<rparr>"

text \<open>
  \<open>rounds n t s\<close>: thread \<open>t\<close> alone takes \<open>5 * n\<close> steps from \<open>s\<close>. An acquire that
  finds the lock free is two steps and the release that frees it again is three, so these
  are \<open>n\<close> acquire and release pairs when no other thread calls the lock.
\<close>

definition rounds :: "nat \<Rightarrow> nat \<Rightarrow> state \<Rightarrow> state" where
  "rounds n t s = run (replicate (5 * n) t) s"

subsection \<open>The non-blocking variant of \<open>locks/reciplock.c\<close>\<close>

text \<open>
  What a call of a C function with a result type gives back: the value of a \<open>return\<close>
  statement, or nothing when control reaches the closing brace of the body.
\<close>

datatype 'a returned = Returns 'a | Falls_off_end

text \<open>
  \<open>tilt_mutex_trylock\<close>, lines 29 to 32 of \<open>locks/reciplock.c\<close>: a function of type
  \<open>bool\<close> whose body is empty. It has no statement, so no access to the lock or to a node
  and no \<open>return\<close>.
\<close>

definition tilt_mutex_trylock :: "state \<Rightarrow> bool returned \<times> state" where
  "tilt_mutex_trylock s = (Falls_off_end, s)"

subsection \<open>The invariant\<close>

text \<open>
  The waiting threads form two stacks. The arrival segment \<open>arr\<close> starts at \<open>tail\<close> and
  follows \<open>tail_prev\<close> down to \<open>base\<close>, the value \<open>tail\<close> had when the segment was
  empty. The entry segment \<open>ent\<close> was detached by an earlier release; it starts at the
  successor of the thread that has the lock and follows \<open>succ\<close> down to the end marker
  that is handed from thread to thread.
\<close>

fun chain :: "(nat \<Rightarrow> ptr) \<Rightarrow> nat list \<Rightarrow> ptr \<Rightarrow> ptr \<Rightarrow> bool" where
  "chain f [] p q \<longleftrightarrow> p = q"
| "chain f (x # xs) p q \<longleftrightarrow> p = Node x \<and> chain f xs (f x) q"

definition seg :: "state \<Rightarrow> nat list \<Rightarrow> ptr \<Rightarrow> ptr \<Rightarrow> bool" where
  "seg s ent p m \<longleftrightarrow>
     chain (succ s) ent p (clear_bit0 m) \<and>
     (m = LOCKED_EMPTY \<or> (\<exists>x. m = Node x \<and> x \<notin> set ent))"

definition ctx_ok :: "state \<Rightarrow> nat list \<Rightarrow> ptr \<Rightarrow> nat \<Rightarrow> bool" where
  "ctx_ok s ent base h \<longleftrightarrow>
     (if tls_successor s h = NULL
      then ent = [] \<and> tls_end_of_segment s h = base \<and> (base = LOCKED_EMPTY \<or> base = Node h)
      else ent \<noteq> [] \<and> base = LOCKED_EMPTY \<and>
           seg s ent (tls_successor s h) (tls_end_of_segment s h) \<and>
           tls_end_of_segment s h \<noteq> Node h)"

definition detached_ok :: "state \<Rightarrow> nat list \<Rightarrow> ptr \<Rightarrow> nat \<Rightarrow> bool" where
  "detached_ok s ent base h \<longleftrightarrow>
     tls_successor s h = NULL \<and> ent \<noteq> [] \<and> base = LOCKED_EMPTY \<and>
     seg s ent (w s h) (tls_end_of_segment s h) \<and>
     (tls_end_of_segment s h = LOCKED_EMPTY \<or> tls_end_of_segment s h = Node h)"

definition holder_ok :: "state \<Rightarrow> nat list \<Rightarrow> nat list \<Rightarrow> ptr \<Rightarrow> nat \<Rightarrow> bool" where
  "holder_ok s arr ent base h \<longleftrightarrow>
     (case pc s h of
        A_spin \<Rightarrow> node_next s h \<noteq> NULL \<and> node_next s h \<noteq> Node h \<and> base = LOCKED_EMPTY \<and>
                  seg s ent (succ s h) (node_next s h)
      | Held \<Rightarrow> ctx_ok s ent base h
      | R_asucc \<Rightarrow> tls_successor s h \<noteq> NULL \<and> ctx_ok s ent base h
      | R_store \<Rightarrow> tls_successor s h \<noteq> NULL \<and> ctx_ok s ent base h
      | R_load \<Rightarrow> tls_successor s h = NULL \<and> ctx_ok s ent base h
      | R_cas \<Rightarrow> tls_successor s h = NULL \<and> ctx_ok s ent base h
      | R_xchg \<Rightarrow> tls_successor s h = NULL \<and> ctx_ok s ent base h \<and> arr \<noteq> []
      | R_aw \<Rightarrow> detached_ok s ent base h
      | R_pass \<Rightarrow> detached_ok s ent base h
      | _ \<Rightarrow> False)"

text \<open>
  A thread owns the lock from the moment the hand-off is written into its node (or its
  exchange finds the lock free) to the moment its release has passed the lock on.
\<close>

fun busy :: "label \<Rightarrow> bool" where
  "busy Idle = False"
| "busy A_xchg = False"
| "busy A_spin = False"
| "busy Failed = False"
| "busy _ = True"

definition owns :: "state \<Rightarrow> nat \<Rightarrow> bool" where
  "owns s t \<longleftrightarrow> busy (pc s t) \<or> (pc s t = A_spin \<and> node_next s t \<noteq> NULL)"

definition waits :: "state \<Rightarrow> nat \<Rightarrow> bool" where
  "waits s t \<longleftrightarrow> pc s t = A_spin \<and> node_next s t = NULL"

definition ginv :: "state \<Rightarrow> nat list \<Rightarrow> nat list \<Rightarrow> ptr \<Rightarrow> nat option \<Rightarrow> bool" where
  "ginv s arr ent base ho \<longleftrightarrow>
     (\<forall>t. owns s t \<longleftrightarrow> ho = Some t) \<and>
     (case ho of
        None \<Rightarrow> tail s = NULL \<and> arr = [] \<and> ent = []
      | Some h \<Rightarrow> holder_ok s arr ent base h) \<and>
     chain (tail_prev s) arr (tail s) base \<and>
     distinct (arr @ ent) \<and>
     (\<forall>t. t \<in> set (arr @ ent) \<longleftrightarrow> waits s t) \<and>
     (\<forall>t. pc s t = A_spin \<longrightarrow>
        succ s t = clear_bit0 (tail_prev s t) \<and> tail_prev s t \<noteq> NULL \<and> tail_prev s t \<noteq> Node t) \<and>
     (\<forall>t. pc s t = A_xchg \<longrightarrow>
        node_next s t = NULL \<and> succ s t = NULL \<and> segment_end s t = Node t) \<and>
     (\<forall>t. pc s t \<noteq> Failed)"

definition lock_inv :: "state \<Rightarrow> bool" where
  "lock_inv s \<longleftrightarrow> (\<exists>arr ent base ho. ginv s arr ent base ho)"

section \<open>Proofs\<close>

subsection \<open>Chains and segments\<close>

lemmas step_defs = step_def goto_def acquire_reset_def acquire_return_def acquire_exchange_def
  acquire_spin_def release_entry_def release_assert_succ_def release_store_def release_load_def
  release_cas_def release_exchange_def release_assert_w_def release_pass_def

lemma chain_cong: "chain f xs p q \<Longrightarrow> (\<forall>x\<in>set xs. g x = f x) \<Longrightarrow> chain g xs p q"
  by (induction xs arbitrary: p) auto

lemma seg_cong: "seg s ent p m \<Longrightarrow> (\<forall>x\<in>set ent. succ s' x = succ s x) \<Longrightarrow> seg s' ent p m"
  unfolding seg_def using chain_cong [of "succ s" ent p "clear_bit0 m" "succ s'"] by blast

lemma holder_ok_cong:
  assumes "holder_ok s arr ent base h"
    and "pc s' h = pc s h" "node_next s' h = node_next s h" "succ s' h = succ s h"
    and "tls_successor s' h = tls_successor s h"
    and "tls_end_of_segment s' h = tls_end_of_segment s h" "w s' h = w s h"
    and "\<forall>x\<in>set ent. succ s' x = succ s x"
  shows "holder_ok s' arr ent base h"
proof -
  have sg: "\<And>p m. seg s ent p m \<Longrightarrow> seg s' ent p m"
    using seg_cong assms(8) by blast
  show ?thesis
    using assms(1-7) sg
    by (cases "pc s h") (simp_all add: holder_ok_def ctx_ok_def detached_ok_def)
qed

lemma clear_bit0_not_LE [simp]: "clear_bit0 p \<noteq> LOCKED_EMPTY"
  by (cases p) simp_all

lemma clear_bit0_Node: "clear_bit0 p = Node x \<longleftrightarrow> p = Node x"
  by (cases p) simp_all

lemma chain_clear:
  "chain f xs p q \<Longrightarrow> xs \<noteq> [] \<Longrightarrow> (\<forall>x\<in>set xs. g x = clear_bit0 (f x)) \<Longrightarrow>
   chain g xs p (clear_bit0 q)"
proof (induction xs arbitrary: p)
  case Nil
  then show ?case by simp
next
  case (Cons x xs)
  show ?case
  proof (cases xs)
    case Nil
    with Cons.prems show ?thesis by simp
  next
    case (Cons y ys)
    with Cons.prems have fx: "f x = Node y" by simp
    have "chain g xs (f x) (clear_bit0 q)"
      using Cons.IH [of "f x"] Cons.prems Cons by simp
    moreover have "g x = f x" using Cons.prems fx by simp
    ultimately show ?thesis using Cons.prems by simp
  qed
qed

lemma chain_start: "chain f xs p q \<Longrightarrow> xs \<noteq> [] \<Longrightarrow> p = Node (hd xs)"
  by (cases xs) auto

lemma ginvI:
  assumes "\<And>t. owns s t \<longleftrightarrow> ho = Some t"
    and "ho = None \<Longrightarrow> tail s = NULL \<and> arr = [] \<and> ent = []"
    and "\<And>h. ho = Some h \<Longrightarrow> holder_ok s arr ent base h"
    and "chain (tail_prev s) arr (tail s) base"
    and "distinct (arr @ ent)"
    and "\<And>t. t \<in> set (arr @ ent) \<longleftrightarrow> waits s t"
    and "\<And>t. pc s t = A_spin \<Longrightarrow>
        succ s t = clear_bit0 (tail_prev s t) \<and> tail_prev s t \<noteq> NULL \<and> tail_prev s t \<noteq> Node t"
    and "\<And>t. pc s t = A_xchg \<Longrightarrow>
        node_next s t = NULL \<and> succ s t = NULL \<and> segment_end s t = Node t"
    and "\<And>t. pc s t \<noteq> Failed"
  shows "ginv s arr ent base ho"
  unfolding ginv_def using assms by (simp split: option.split)

lemma ginv_owns: "ginv s arr ent base ho \<Longrightarrow> owns s t \<longleftrightarrow> ho = Some t"
  by (simp add: ginv_def)

lemma ginv_free: "ginv s arr ent base None \<Longrightarrow> tail s = NULL \<and> arr = [] \<and> ent = []"
  by (simp add: ginv_def)

lemma ginv_holder: "ginv s arr ent base (Some h) \<Longrightarrow> holder_ok s arr ent base h"
  by (simp add: ginv_def)

lemma ginv_chain: "ginv s arr ent base ho \<Longrightarrow> chain (tail_prev s) arr (tail s) base"
  by (simp add: ginv_def)

lemma ginv_distinct: "ginv s arr ent base ho \<Longrightarrow> distinct (arr @ ent)"
  by (simp add: ginv_def)

lemma ginv_waits: "ginv s arr ent base ho \<Longrightarrow> t \<in> set (arr @ ent) \<longleftrightarrow> waits s t"
  by (simp add: ginv_def)

lemma ginv_spin:
  "ginv s arr ent base ho \<Longrightarrow> pc s t = A_spin \<Longrightarrow>
   succ s t = clear_bit0 (tail_prev s t) \<and> tail_prev s t \<noteq> NULL \<and> tail_prev s t \<noteq> Node t"
  by (simp add: ginv_def)

lemma ginv_xchg:
  "ginv s arr ent base ho \<Longrightarrow> pc s t = A_xchg \<Longrightarrow>
   node_next s t = NULL \<and> succ s t = NULL \<and> segment_end s t = Node t"
  by (simp add: ginv_def)

lemma ginv_not_failed: "ginv s arr ent base ho \<Longrightarrow> pc s t \<noteq> Failed"
  by (simp add: ginv_def)

text \<open>What the invariant says about \<open>tail\<close>.\<close>

lemma holder_base: "holder_ok s arr ent base h \<Longrightarrow> base = LOCKED_EMPTY \<or> base = Node h"
  by (cases "pc s h") (auto simp: holder_ok_def ctx_ok_def detached_ok_def split: if_splits)

lemma ginv_member_spin:
  "ginv s arr ent base ho \<Longrightarrow> x \<in> set (arr @ ent) \<Longrightarrow> pc s x = A_spin \<and> node_next s x = NULL"
  using ginv_waits [of s arr ent base ho x] by (simp add: waits_def)

lemma ginv_tail_cases:
  assumes g: "ginv s arr ent base ho"
  shows "(ho = None \<and> tail s = NULL) \<or>
         (\<exists>h. ho = Some h \<and> arr = [] \<and> (tail s = LOCKED_EMPTY \<or> tail s = Node h)) \<or>
         (\<exists>h x. ho = Some h \<and> arr \<noteq> [] \<and> tail s = Node x \<and> x = hd arr \<and> pc s x = A_spin \<and>
            node_next s x = NULL)"
proof (cases ho)
  case None
  then show ?thesis using ginv_free g by simp
next
  case (Some h)
  then have b: "base = LOCKED_EMPTY \<or> base = Node h"
    using ginv_holder g holder_base by blast
  show ?thesis
  proof (cases arr)
    case Nil
    then have "tail s = base" using ginv_chain [OF g] by simp
    then show ?thesis using b Some Nil by simp
  next
    case (Cons x xs)
    then have "tail s = Node x" using ginv_chain [OF g] by simp
    moreover have "pc s x = A_spin \<and> node_next s x = NULL"
      using ginv_member_spin [OF g, of x] Cons by simp
    ultimately show ?thesis using Some Cons by simp
  qed
qed

lemma ginv_tail_not_self:
  assumes g: "ginv s arr ent base ho" and pc: "\<not> owns s t" "pc s t \<noteq> A_spin"
  shows "tail s \<noteq> Node t"
  using ginv_tail_cases [OF g] pc ginv_owns [OF g, of t] by auto

lemma ginv_held_tail:
  assumes g: "ginv s arr ent base (Some h)"
  shows "tail s \<noteq> NULL"
  using ginv_tail_cases [OF g] by auto

subsection \<open>Every step keeps the invariant\<close>

lemma inv_reset:
  assumes g: "ginv s arr ent base ho" and pc: "pc s t = Idle"
  shows "ginv (acquire_reset t s) arr ent base ho"
proof -
  have nw: "t \<notin> set (arr @ ent)" using ginv_member_spin [OF g, of t] pc by auto
  have no: "ho \<noteq> Some t" using ginv_owns [OF g, of t] pc by (simp add: owns_def)
  show ?thesis
  proof (rule ginvI)
    fix u show "owns (acquire_reset t s) u \<longleftrightarrow> ho = Some u"
      using ginv_owns [OF g, of u] pc
      by (cases "u = t") (simp_all add: owns_def acquire_reset_def goto_def)
  next
    assume "ho = None" then show "tail (acquire_reset t s) = NULL \<and> arr = [] \<and> ent = []"
      using ginv_free g by (simp add: acquire_reset_def goto_def)
  next
    fix h assume h: "ho = Some h"
    then have "h \<noteq> t" using no by auto
    moreover have "holder_ok s arr ent base h" using ginv_holder g h by simp
    ultimately show "holder_ok (acquire_reset t s) arr ent base h"
      using nw by (rule_tac holder_ok_cong [of s]) (auto simp: acquire_reset_def goto_def)
  next
    show "chain (tail_prev (acquire_reset t s)) arr (tail (acquire_reset t s)) base"
      using ginv_chain [OF g] by (simp add: acquire_reset_def goto_def)
  next
    show "distinct (arr @ ent)" by (rule ginv_distinct [OF g])
  next
    fix u show "u \<in> set (arr @ ent) \<longleftrightarrow> waits (acquire_reset t s) u"
      using ginv_waits [OF g, of u] pc
      by (cases "u = t") (simp_all add: waits_def acquire_reset_def goto_def)
  next
    fix u assume "pc (acquire_reset t s) u = A_spin"
    then show "succ (acquire_reset t s) u = clear_bit0 (tail_prev (acquire_reset t s) u) \<and>
        tail_prev (acquire_reset t s) u \<noteq> NULL \<and> tail_prev (acquire_reset t s) u \<noteq> Node u"
      using ginv_spin [OF g, of u] by (cases "u = t") (simp_all add: acquire_reset_def goto_def)
  next
    fix u assume "pc (acquire_reset t s) u = A_xchg"
    then show "node_next (acquire_reset t s) u = NULL \<and> succ (acquire_reset t s) u = NULL \<and>
        segment_end (acquire_reset t s) u = Node u"
      using ginv_xchg [OF g, of u] by (cases "u = t") (simp_all add: acquire_reset_def goto_def)
  next
    fix u show "pc (acquire_reset t s) u \<noteq> Failed"
      using ginv_not_failed [OF g, of u] by (cases "u = t") (simp_all add: acquire_reset_def goto_def)
  qed
qed

text \<open>The exchange of acquire on a free lock.\<close>

lemma acquire_exchange_free:
  assumes "tail s = NULL"
  shows "acquire_exchange t s =
         acquire_return t (s\<lparr>tail := Node t, tail_prev := (tail_prev s)(t := NULL)\<rparr>)"
  using assms by (simp add: acquire_exchange_def)

lemma inv_exchange_free:
  assumes g: "ginv s arr ent base ho" and pc: "pc s t = A_xchg" and tl: "tail s = NULL"
  shows "ginv (acquire_exchange t s) [] [] (Node t) (Some t)"
proof -
  have x: "node_next s t = NULL" "succ s t = NULL" "segment_end s t = Node t"
    using ginv_xchg [OF g pc] by simp_all
  have ho: "ho = None" using ginv_tail_cases [OF g] tl by auto
  then have e: "arr = []" "ent = []" using ginv_free g by auto
  have nobody: "\<not> owns s u" for u using ginv_owns [OF g, of u] ho by simp
  define s' where "s' = acquire_exchange t s"
  have f: "tail s' = Node t" "node_next s' = node_next s" "pc s' = (pc s)(t := Held)"
    "tail_prev s' = (tail_prev s)(t := NULL)" "succ s' = succ s"
    "tls_successor s' = (tls_successor s)(t := NULL)"
    "tls_end_of_segment s' = (tls_end_of_segment s)(t := Node t)"
    "segment_end s' = segment_end s"
    unfolding s'_def acquire_exchange_free [OF tl] using x
    by (simp_all add: acquire_return_def goto_def)
  show ?thesis
    unfolding s'_def [symmetric]
  proof (rule ginvI)
    fix u show "owns s' u \<longleftrightarrow> Some t = Some u"
      using nobody [of u] by (cases "u = t") (auto simp: owns_def f)
  next
    fix h assume "Some t = Some h"
    then show "holder_ok s' [] [] (Node t) h"
      by (auto simp: holder_ok_def ctx_ok_def f)
  next
    show "chain (tail_prev s') [] (tail s') (Node t)" by (simp add: f)
  next
    fix u show "u \<in> set ([] @ []) \<longleftrightarrow> waits s' u"
      using ginv_waits [OF g, of u] e pc by (cases "u = t") (auto simp: waits_def f)
  next
    fix u assume "pc s' u = A_spin"
    then show "succ s' u = clear_bit0 (tail_prev s' u) \<and> tail_prev s' u \<noteq> NULL \<and>
        tail_prev s' u \<noteq> Node u"
      using ginv_spin [OF g, of u] by (cases "u = t") (auto simp: f)
  next
    fix u assume "pc s' u = A_xchg"
    then show "node_next s' u = NULL \<and> succ s' u = NULL \<and> segment_end s' u = Node u"
      using ginv_xchg [OF g, of u] by (cases "u = t") (auto simp: f)
  next
    fix u show "pc s' u \<noteq> Failed"
      using ginv_not_failed [OF g, of u] by (cases "u = t") (auto simp: f)
  qed simp_all
qed

text \<open>The exchange of acquire on a held lock.\<close>

lemma acquire_exchange_held:
  assumes "tail s \<noteq> NULL" "tail s \<noteq> Node t"
  shows "acquire_exchange t s =
         goto t A_spin (s\<lparr>tail := Node t, tail_prev := (tail_prev s)(t := tail s),
           succ := (succ s)(t := clear_bit0 (tail s))\<rparr>)"
  using assms by (simp add: acquire_exchange_def Let_def clear_bit0_Node)

lemma inv_exchange_held:
  assumes g: "ginv s arr ent base ho" and pc: "pc s t = A_xchg" and tl: "tail s \<noteq> NULL"
  shows "ginv (acquire_exchange t s) (t # arr) ent base ho"
proof -
  have x: "node_next s t = NULL" "succ s t = NULL" "segment_end s t = Node t"
    using ginv_xchg [OF g pc] by simp_all
  have no: "\<not> owns s t" using pc by (simp add: owns_def)
  have nt: "tail s \<noteq> Node t" using ginv_tail_not_self [OF g no] pc by simp
  have nw: "t \<notin> set (arr @ ent)" using ginv_member_spin [OF g, of t] pc by auto
  obtain h where h: "ho = Some h" using ginv_tail_cases [OF g] tl by auto
  have ht: "h \<noteq> t" using ginv_owns [OF g, of t] no h by auto
  define s' where "s' = acquire_exchange t s"
  have f: "tail s' = Node t" "node_next s' = node_next s" "pc s' = (pc s)(t := A_spin)"
    "tail_prev s' = (tail_prev s)(t := tail s)" "succ s' = (succ s)(t := clear_bit0 (tail s))"
    "tls_successor s' = tls_successor s" "tls_end_of_segment s' = tls_end_of_segment s"
    "segment_end s' = segment_end s" "w s' = w s"
    unfolding s'_def acquire_exchange_held [OF tl nt] by (simp_all add: goto_def)
  show ?thesis
    unfolding s'_def [symmetric]
  proof (rule ginvI)
    fix u show "owns s' u \<longleftrightarrow> ho = Some u"
      using ginv_owns [OF g, of u] no x h ht by (cases "u = t") (auto simp: owns_def f)
  next
    assume "ho = None" then show "tail s' = NULL \<and> t # arr = [] \<and> ent = []" using h by simp
  next
    fix k assume k: "ho = Some k"
    have "holder_ok s arr ent base h" using ginv_holder g h by simp
    then have "holder_ok s' arr ent base h"
      using nw ht by (rule_tac holder_ok_cong [of s]) (auto simp: f)
    then have "holder_ok s' (t # arr) ent base h"
      by (cases "pc s' h") (auto simp: holder_ok_def)
    then show "holder_ok s' (t # arr) ent base k" using h k by simp
  next
    have "chain (tail_prev s') arr (tail s) base"
      using ginv_chain [OF g] nw by (rule_tac chain_cong [of "tail_prev s"]) (auto simp: f)
    then show "chain (tail_prev s') (t # arr) (tail s') base" by (simp add: f)
  next
    show "distinct ((t # arr) @ ent)" using ginv_distinct [OF g] nw by simp
  next
    fix u show "u \<in> set ((t # arr) @ ent) \<longleftrightarrow> waits s' u"
      using ginv_waits [OF g, of u] x by (cases "u = t") (auto simp: waits_def f)
  next
    fix u assume "pc s' u = A_spin"
    then show "succ s' u = clear_bit0 (tail_prev s' u) \<and> tail_prev s' u \<noteq> NULL \<and>
        tail_prev s' u \<noteq> Node u"
      using ginv_spin [OF g, of u] tl nt by (cases "u = t") (auto simp: f)
  next
    fix u assume "pc s' u = A_xchg"
    then show "node_next s' u = NULL \<and> succ s' u = NULL \<and> segment_end s' u = Node u"
      using ginv_xchg [OF g, of u] by (cases "u = t") (auto simp: f)
  next
    fix u show "pc s' u \<noteq> Failed"
      using ginv_not_failed [OF g, of u] by (cases "u = t") (auto simp: f)
  qed
qed

text \<open>A spin iteration that reads null.\<close>

lemma inv_spin_wait:
  assumes g: "ginv s arr ent base ho" and pc: "pc s t = A_spin" and nx: "node_next s t = NULL"
  shows "ginv (acquire_spin t s) arr ent base ho"
proof -
  define s' where "s' = acquire_spin t s"
  have f: "tail s' = tail s" "node_next s' = node_next s" "pc s' = pc s"
    "tail_prev s' = tail_prev s" "succ s' = succ s"
    "tls_successor s' = tls_successor s" "tls_end_of_segment s' = tls_end_of_segment s"
    "segment_end s' = (segment_end s)(t := NULL)" "w s' = w s"
    unfolding s'_def using nx by (simp_all add: acquire_spin_def)
  show ?thesis
    unfolding s'_def [symmetric]
  proof (rule ginvI)
    fix u show "owns s' u \<longleftrightarrow> ho = Some u"
      using ginv_owns [OF g, of u] by (simp add: owns_def f)
  next
    assume "ho = None" then show "tail s' = NULL \<and> arr = [] \<and> ent = []"
      using ginv_free g by (simp add: f)
  next
    fix h assume "ho = Some h"
    then have "holder_ok s arr ent base h" using ginv_holder g by simp
    then show "holder_ok s' arr ent base h"
      by (rule holder_ok_cong) (simp_all add: f)
  next
    show "chain (tail_prev s') arr (tail s') base" using ginv_chain [OF g] by (simp add: f)
  next
    show "distinct (arr @ ent)" by (rule ginv_distinct [OF g])
  next
    fix u show "u \<in> set (arr @ ent) \<longleftrightarrow> waits s' u"
      using ginv_waits [OF g, of u] by (simp add: waits_def f)
  next
    fix u assume "pc s' u = A_spin"
    then show "succ s' u = clear_bit0 (tail_prev s' u) \<and> tail_prev s' u \<noteq> NULL \<and>
        tail_prev s' u \<noteq> Node u"
      using ginv_spin [OF g, of u] by (simp add: f)
  next
    fix u assume "pc s' u = A_xchg"
    then show "node_next s' u = NULL \<and> succ s' u = NULL \<and> segment_end s' u = Node u"
      using ginv_xchg [OF g, of u] pc by (cases "u = t") (auto simp: f)
  next
    fix u show "pc s' u \<noteq> Failed"
      using ginv_not_failed [OF g, of u] by (simp add: f)
  qed
qed

text \<open>The spin iteration that reads the hand-off.\<close>

lemma seg_quash:
  assumes "seg s ent p m" "p = m"
  shows "ent = []"
proof (cases ent)
  case Nil
  then show ?thesis by simp
next
  case (Cons e es)
  then have "p = Node e" using assms(1) by (simp add: seg_def)
  then show ?thesis using assms Cons by (auto simp: seg_def)
qed

lemma seg_null:
  assumes "seg s ent NULL m"
  shows "ent = [] \<and> m = LOCKED_EMPTY"
proof (cases ent)
  case Nil
  then show ?thesis using assms by (auto simp: seg_def)
next
  case (Cons e es)
  then show ?thesis using assms by (simp add: seg_def)
qed

lemma seg_nonempty:
  assumes "seg s ent p m" "p \<noteq> NULL" "p \<noteq> m"
  shows "ent \<noteq> []"
proof
  assume "ent = []"
  then have "p = clear_bit0 m" "m = LOCKED_EMPTY \<or> (\<exists>x. m = Node x)"
    using assms(1) by (auto simp: seg_def)
  then show False using assms(2,3) by auto
qed

lemma acquire_spin_handoff:
  assumes "node_next s t \<noteq> NULL" "node_next s t \<noteq> Node t"
  shows "acquire_spin t s =
     goto t Held
       (s\<lparr>segment_end := (segment_end s)
             (t := if succ s t = node_next s t then LOCKED_EMPTY else node_next s t),
          succ := (succ s)(t := if succ s t = node_next s t then NULL else succ s t),
          tls_successor := (tls_successor s)
             (t := if succ s t = node_next s t then NULL else succ s t),
          tls_end_of_segment := (tls_end_of_segment s)
             (t := if succ s t = node_next s t then LOCKED_EMPTY else node_next s t)\<rparr>)"
  using assms by (simp add: acquire_spin_def acquire_return_def goto_def Let_def)

lemma inv_spin_handoff:
  assumes g: "ginv s arr ent base ho" and pc: "pc s t = A_spin" and nx: "node_next s t \<noteq> NULL"
  shows "ginv (acquire_spin t s) arr ent base ho"
proof -
  have ow: "owns s t" using pc nx by (simp add: owns_def)
  then have ho: "ho = Some t" using ginv_owns [OF g, of t] by simp
  have "holder_ok s arr ent base t" using ginv_holder [of s arr ent base t] g ho by simp
  then have hk: "node_next s t \<noteq> Node t" "base = LOCKED_EMPTY"
    "seg s ent (succ s t) (node_next s t)"
    using pc by (simp_all add: holder_ok_def)
  have nw: "t \<notin> set (arr @ ent)" using ginv_member_spin [OF g, of t] nx by auto
  define s' where "s' = acquire_spin t s"
  have f: "tail s' = tail s" "node_next s' = node_next s" "pc s' = (pc s)(t := Held)"
    "tail_prev s' = tail_prev s"
    "succ s' = (succ s)(t := if succ s t = node_next s t then NULL else succ s t)"
    "tls_successor s' = (tls_successor s)
       (t := if succ s t = node_next s t then NULL else succ s t)"
    "tls_end_of_segment s' = (tls_end_of_segment s)
       (t := if succ s t = node_next s t then LOCKED_EMPTY else node_next s t)"
    "w s' = w s"
    unfolding s'_def acquire_spin_handoff [OF nx hk(1)] by (simp_all add: goto_def)
  have sg: "seg s' ent p m" if "seg s ent p m" for p m
    using that nw by (rule_tac seg_cong [of s]) (auto simp: f)
  show ?thesis
    unfolding s'_def [symmetric]
  proof (rule ginvI)
    fix u show "owns s' u \<longleftrightarrow> ho = Some u"
      using ginv_owns [OF g, of u] ho by (cases "u = t") (auto simp: owns_def f)
  next
    assume "ho = None" then show "tail s' = NULL \<and> arr = [] \<and> ent = []" using ho by simp
  next
    fix h assume "ho = Some h"
    then have h: "h = t" using ho by simp
    have "ctx_ok s' ent base t"
    proof (cases "succ s t = node_next s t")
      case True
      then have "ent = []" using seg_quash hk(3) by blast
      then show ?thesis using True hk(2) by (simp add: ctx_ok_def f)
    next
      case False
      show ?thesis
      proof (cases "succ s t = NULL")
        case True
        then have "ent = [] \<and> node_next s t = LOCKED_EMPTY" using seg_null hk(3) by simp
        then show ?thesis using True False hk(2) by (simp add: ctx_ok_def f)
      next
        case nn: False
        then have "ent \<noteq> []" using seg_nonempty [OF hk(3)] False by simp
        then show ?thesis using nn False hk sg [OF hk(3)] by (simp add: ctx_ok_def f)
      qed
    qed
    then show "holder_ok s' arr ent base h" using h by (simp add: holder_ok_def f)
  next
    show "chain (tail_prev s') arr (tail s') base" using ginv_chain [OF g] by (simp add: f)
  next
    show "distinct (arr @ ent)" by (rule ginv_distinct [OF g])
  next
    fix u show "u \<in> set (arr @ ent) \<longleftrightarrow> waits s' u"
      using ginv_waits [OF g, of u] nx by (cases "u = t") (auto simp: waits_def f)
  next
    fix u assume "pc s' u = A_spin"
    then show "succ s' u = clear_bit0 (tail_prev s' u) \<and> tail_prev s' u \<noteq> NULL \<and>
        tail_prev s' u \<noteq> Node u"
      using ginv_spin [OF g, of u] by (cases "u = t") (auto simp: f)
  next
    fix u assume "pc s' u = A_xchg"
    then show "node_next s' u = NULL \<and> succ s' u = NULL \<and> segment_end s' u = Node u"
      using ginv_xchg [OF g, of u] pc
      by (cases "u = t") (auto simp: f s'_def acquire_spin_handoff [OF nx hk(1)] goto_def)
  next
    fix u show "pc s' u \<noteq> Failed"
      using ginv_not_failed [OF g, of u] by (cases "u = t") (auto simp: f)
  qed
qed

text \<open>A step that only moves the holder from one control point of release to another.\<close>

lemma inv_goto:
  assumes g: "ginv s arr ent base (Some t)" and b: "busy (pc s t)" "busy l"
    and h: "holder_ok (goto t l s) arr' ent base t"
    and a: "arr' = arr"
  shows "ginv (goto t l s) arr ent base (Some t)"
proof (rule ginvI)
  fix u show "owns (goto t l s) u \<longleftrightarrow> Some t = Some u"
    using ginv_owns [OF g, of u] b by (cases "u = t") (auto simp: owns_def goto_def)
next
  fix k assume "Some t = Some k"
  then show "holder_ok (goto t l s) arr ent base k" using h a by simp
next
  show "chain (tail_prev (goto t l s)) arr (tail (goto t l s)) base"
    using ginv_chain [OF g] by (simp add: goto_def)
next
  show "distinct (arr @ ent)" by (rule ginv_distinct [OF g])
next
  fix u show "u \<in> set (arr @ ent) \<longleftrightarrow> waits (goto t l s) u"
    using ginv_waits [OF g, of u] b by (cases "u = t") (auto simp: waits_def goto_def)
next
  fix u assume "pc (goto t l s) u = A_spin"
  then show "succ (goto t l s) u = clear_bit0 (tail_prev (goto t l s) u) \<and>
      tail_prev (goto t l s) u \<noteq> NULL \<and> tail_prev (goto t l s) u \<noteq> Node u"
    using ginv_spin [OF g, of u] b by (cases "u = t") (auto simp: goto_def)
next
  fix u assume "pc (goto t l s) u = A_xchg"
  then show "node_next (goto t l s) u = NULL \<and> succ (goto t l s) u = NULL \<and>
      segment_end (goto t l s) u = Node u"
    using ginv_xchg [OF g, of u] b by (cases "u = t") (auto simp: goto_def)
next
  fix u show "pc (goto t l s) u \<noteq> Failed"
    using ginv_not_failed [OF g, of u] b by (cases "u = t") (auto simp: goto_def)
qed simp

lemma ctx_ok_pc: "ctx_ok (s\<lparr>pc := x\<rparr>) ent base h = ctx_ok s ent base h"
  by (simp add: ctx_ok_def seg_def)

lemma detached_ok_pc: "detached_ok (s\<lparr>pc := x\<rparr>) ent base h = detached_ok s ent base h"
  by (simp add: detached_ok_def seg_def)

lemma ctx_ok_mark: "ctx_ok s ent base h \<Longrightarrow> tls_end_of_segment s h \<noteq> NULL"
  by (auto simp: ctx_ok_def seg_def split: if_splits)

lemma ginv_busy_holder:
  assumes "ginv s arr ent base ho" "busy (pc s t)"
  shows "ho = Some t"
  using ginv_owns [OF assms(1), of t] assms(2) by (simp add: owns_def)

text \<open>The entry of release.\<close>

lemma release_entry_eq:
  assumes g: "ginv s arr ent base ho" and pc: "pc s t = Held"
  shows "release_entry t s = goto t (if tls_successor s t \<noteq> NULL then R_asucc else R_load) s"
proof -
  have ho: "ho = Some t" using ginv_busy_holder [OF g] pc by simp
  then have "holder_ok s arr ent base t" using ginv_holder [of s arr ent base t] g by simp
  then have c: "ctx_ok s ent base t" using pc by (simp add: holder_ok_def)
  have "tail s \<noteq> NULL" using ginv_held_tail g ho by simp
  moreover have "tls_end_of_segment s t \<noteq> NULL" using ctx_ok_mark [OF c] .
  moreover have "tls_successor s t = NULL \<Longrightarrow>
    tls_end_of_segment s t = LOCKED_EMPTY \<or> tls_end_of_segment s t = Node t"
    using c by (auto simp: ctx_ok_def)
  ultimately show ?thesis by (auto simp: release_entry_def)
qed

lemma inv_release_entry:
  assumes g: "ginv s arr ent base ho" and pc: "pc s t = Held"
  shows "ginv (release_entry t s) arr ent base ho"
proof -
  have ho: "ho = Some t" using ginv_busy_holder [OF g] pc by simp
  then have "holder_ok s arr ent base t" using ginv_holder [of s arr ent base t] g by simp
  then have c: "ctx_ok s ent base t" using pc by (simp add: holder_ok_def)
  show ?thesis
    unfolding release_entry_eq [OF g pc] ho
    using g c pc ho
    by (intro inv_goto [where arr' = arr]) (auto simp: holder_ok_def goto_def ctx_ok_pc)
qed

lemma ginv_holder_at:
  assumes "ginv s arr ent base ho" "busy (pc s t)"
  shows "ho = Some t \<and> holder_ok s arr ent base t"
  using ginv_busy_holder [OF assms] ginv_holder [of s arr ent base t] assms(1) by simp

lemma seg_head:
  assumes "seg s ent p m" "ent \<noteq> []"
  shows "p = Node (hd ent) \<and> hd ent \<in> set ent \<and> m \<noteq> NULL \<and> m \<noteq> Node (hd ent) \<and>
         seg s (tl ent) (succ s (hd ent)) m"
  using assms by (cases ent) (auto simp: seg_def)

text \<open>Line 148: the successor is waiting.\<close>

lemma release_assert_succ_eq:
  assumes g: "ginv s arr ent base ho" and pc: "pc s t = R_asucc"
  shows "release_assert_succ t s = goto t R_store s \<and>
         (\<exists>e. tls_successor s t = Node e \<and> node_next s e = NULL \<and> e \<noteq> t)"
proof -
  have h: "ho = Some t" "holder_ok s arr ent base t" using ginv_holder_at [OF g] pc by simp_all
  then have c: "ent \<noteq> []" "seg s ent (tls_successor s t) (tls_end_of_segment s t)"
    using pc by (simp_all add: holder_ok_def ctx_ok_def)
  have e: "tls_successor s t = Node (hd ent)" "hd ent \<in> set ent" using seg_head [OF c(2,1)] by simp_all
  then have "pc s (hd ent) = A_spin \<and> node_next s (hd ent) = NULL"
    using ginv_member_spin [OF g, of "hd ent"] by simp
  then show ?thesis using e pc by (auto simp: release_assert_succ_def)
qed

lemma inv_release_assert_succ:
  assumes g: "ginv s arr ent base ho" and pc: "pc s t = R_asucc"
  shows "ginv (release_assert_succ t s) arr ent base ho"
proof -
  have h: "ho = Some t" "holder_ok s arr ent base t" using ginv_holder_at [OF g] pc by simp_all
  have eq: "release_assert_succ t s = goto t R_store s" using release_assert_succ_eq [OF g pc] by simp
  show ?thesis
    unfolding eq h(1) using g h pc
    by (intro inv_goto [where arr' = arr]) (auto simp: holder_ok_def goto_def ctx_ok_pc)
qed

text \<open>The hand-off store, shared by lines 151 and 183.\<close>

lemma inv_handoff:
  assumes g: "ginv s arr ent base (Some t)" and b: "busy (pc s t)"
    and ne: "ent \<noteq> []" and be: "base = LOCKED_EMPTY"
    and sg: "seg s ent (Node e) m"
    and s': "s' = goto t Idle (s\<lparr>node_next := (node_next s)(e := m)\<rparr>)"
  shows "ginv s' arr (tl ent) base (Some e)"
proof -
  have e: "e = hd ent" "e \<in> set ent" "m \<noteq> NULL" "m \<noteq> Node e" "seg s (tl ent) (succ s e) m"
    using seg_head [OF sg ne] by simp_all
  have es: "pc s e = A_spin" "node_next s e = NULL"
    using ginv_member_spin [OF g, of e] e(2) by simp_all
  have et: "e \<noteq> t" using es b by auto
  have ent: "ent = e # tl ent" using ne e(1) by simp
  have d: "distinct (arr @ e # tl ent)" using ginv_distinct [OF g] ent by simp
  have f: "tail s' = tail s" "node_next s' = (node_next s)(e := m)" "pc s' = (pc s)(t := Idle)"
    "tail_prev s' = tail_prev s" "succ s' = succ s" "segment_end s' = segment_end s"
    by (simp_all add: s' goto_def)
  show ?thesis
  proof (rule ginvI)
    fix u show "owns s' u \<longleftrightarrow> Some e = Some u"
      using ginv_owns [OF g, of u] es et e(3) b
      by (cases "u = t"; cases "u = e") (auto simp: owns_def f)
  next
    fix k assume "Some e = Some k"
    moreover have "seg s' (tl ent) (succ s e) m" using e(5) by (rule seg_cong) (simp add: f)
    ultimately show "holder_ok s' arr (tl ent) base k"
      using es et e(3,4) be by (auto simp: holder_ok_def f)
  next
    show "chain (tail_prev s') arr (tail s') base" using ginv_chain [OF g] by (simp add: f)
  next
    show "distinct (arr @ tl ent)" using d by simp
  next
    fix u
    have "u \<in> set (arr @ e # tl ent) \<longleftrightarrow> waits s u" using ginv_waits [OF g, of u] ent by simp
    then show "u \<in> set (arr @ tl ent) \<longleftrightarrow> waits s' u"
      using d e(3) b by (cases "u = t"; cases "u = e") (auto simp: waits_def f)
  next
    fix u assume "pc s' u = A_spin"
    then show "succ s' u = clear_bit0 (tail_prev s' u) \<and> tail_prev s' u \<noteq> NULL \<and>
        tail_prev s' u \<noteq> Node u"
      using ginv_spin [OF g, of u] by (cases "u = t") (auto simp: f)
  next
    fix u assume "pc s' u = A_xchg"
    then show "node_next s' u = NULL \<and> succ s' u = NULL \<and> segment_end s' u = Node u"
      using ginv_xchg [OF g, of u] es by (cases "u = t"; cases "u = e") (auto simp: f)
  next
    fix u show "pc s' u \<noteq> Failed"
      using ginv_not_failed [OF g, of u] by (cases "u = t") (auto simp: f)
  qed simp
qed

lemma inv_release_store:
  assumes g: "ginv s arr ent base ho" and pc: "pc s t = R_store"
  shows "\<exists>e. ginv (release_store t s) arr (tl ent) base (Some e)"
proof -
  have h: "ho = Some t" "holder_ok s arr ent base t" using ginv_holder_at [OF g] pc by simp_all
  then have c: "ent \<noteq> []" "base = LOCKED_EMPTY"
    "seg s ent (tls_successor s t) (tls_end_of_segment s t)"
    using pc by (simp_all add: holder_ok_def ctx_ok_def)
  have e: "tls_successor s t = Node (hd ent)" using seg_head [OF c(3,1)] by simp
  have "ginv (release_store t s) arr (tl ent) base (Some (hd ent))"
    using g [unfolded h(1)] _ c(1,2) c(3) [unfolded e]
    by (rule inv_handoff) (simp_all add: pc release_store_def e)
  then show ?thesis ..
qed

text \<open>Lines 166 to 171.\<close>

lemma ctx_empty_arr:
  assumes g: "ginv s arr ent base ho" and b: "busy (pc s t)"
    and c: "tls_successor s t = NULL" "ctx_ok s ent base t"
  shows "ent = []" "tls_end_of_segment s t = base" "arr = [] \<longleftrightarrow> tail s = tls_end_of_segment s t"
proof -
  show e: "ent = []" "tls_end_of_segment s t = base" using c by (simp_all add: ctx_ok_def)
  have bb: "base = LOCKED_EMPTY \<or> base = Node t" using c by (simp add: ctx_ok_def)
  show "arr = [] \<longleftrightarrow> tail s = tls_end_of_segment s t"
  proof (cases arr)
    case Nil
    then show ?thesis using ginv_chain [OF g] e by simp
  next
    case (Cons x xs)
    then have "tail s = Node x" "pc s x = A_spin"
      using ginv_chain [OF g] ginv_member_spin [OF g, of x] by simp_all
    then show ?thesis using bb b e Cons by auto
  qed
qed

lemma inv_release_load:
  assumes g: "ginv s arr ent base ho" and pc: "pc s t = R_load"
  shows "ginv (release_load t s) arr ent base ho"
proof -
  have h: "ho = Some t" "holder_ok s arr ent base t" using ginv_holder_at [OF g] pc by simp_all
  then have c: "tls_successor s t = NULL" "ctx_ok s ent base t"
    using pc by (simp_all add: holder_ok_def)
  have a: "arr = [] \<longleftrightarrow> tail s = tls_end_of_segment s t"
    using ctx_empty_arr(3) [OF g _ c] pc by simp
  show ?thesis
  proof (cases "tail s = tls_end_of_segment s t")
    case True
    then have eq: "release_load t s = goto t R_cas s" by (simp add: release_load_def)
    show ?thesis
      unfolding eq h(1) using g h pc c
      by (intro inv_goto [where arr' = arr]) (auto simp: holder_ok_def goto_def ctx_ok_pc)
  next
    case False
    then have eq: "release_load t s = goto t R_xchg s" by (simp add: release_load_def)
    show ?thesis
      unfolding eq h(1) using g h pc c a False
      by (intro inv_goto [where arr' = arr]) (auto simp: holder_ok_def goto_def ctx_ok_pc)
  qed
qed

lemma inv_release_cas_fail:
  assumes g: "ginv s arr ent base ho" and pc: "pc s t = R_cas"
    and ne: "tail s \<noteq> tls_end_of_segment s t"
  shows "ginv (release_cas t s) arr ent base ho"
proof -
  have h: "ho = Some t" "holder_ok s arr ent base t" using ginv_holder_at [OF g] pc by simp_all
  then have c: "tls_successor s t = NULL" "ctx_ok s ent base t"
    using pc by (simp_all add: holder_ok_def)
  have a: "arr = [] \<longleftrightarrow> tail s = tls_end_of_segment s t"
    using ctx_empty_arr(3) [OF g _ c] pc by simp
  have eq: "release_cas t s = goto t R_xchg s" using ne by (simp add: release_cas_def)
  show ?thesis
    unfolding eq h(1) using g h pc c a ne
    by (intro inv_goto [where arr' = arr]) (auto simp: holder_ok_def goto_def ctx_ok_pc)
qed

lemma inv_release_cas_free:
  assumes g: "ginv s arr ent base ho" and pc: "pc s t = R_cas"
    and eq: "tail s = tls_end_of_segment s t"
  shows "ginv (release_cas t s) [] [] NULL None"
proof -
  have h: "ho = Some t" "holder_ok s arr ent base t" using ginv_holder_at [OF g] pc by simp_all
  then have c: "tls_successor s t = NULL" "ctx_ok s ent base t"
    using pc by (simp_all add: holder_ok_def)
  have e: "ent = []" "arr = []" using ctx_empty_arr [OF g _ c] pc eq by simp_all
  define s' where "s' = release_cas t s"
  have f: "tail s' = NULL" "node_next s' = node_next s" "pc s' = (pc s)(t := Idle)"
    "tail_prev s' = tail_prev s" "succ s' = succ s" "segment_end s' = segment_end s"
    unfolding s'_def using eq by (simp_all add: release_cas_def goto_def)
  show ?thesis
    unfolding s'_def [symmetric]
  proof (rule ginvI)
    fix u show "owns s' u \<longleftrightarrow> None = Some u"
      using ginv_owns [OF g, of u] h(1) by (cases "u = t") (auto simp: owns_def f)
  next
    fix u show "u \<in> set ([] @ []) \<longleftrightarrow> waits s' u"
      using ginv_waits [OF g, of u] e by (cases "u = t") (auto simp: waits_def f)
  next
    fix u assume "pc s' u = A_spin"
    then show "succ s' u = clear_bit0 (tail_prev s' u) \<and> tail_prev s' u \<noteq> NULL \<and>
        tail_prev s' u \<noteq> Node u"
      using ginv_spin [OF g, of u] by (cases "u = t") (auto simp: f)
  next
    fix u assume "pc s' u = A_xchg"
    then show "node_next s' u = NULL \<and> succ s' u = NULL \<and> segment_end s' u = Node u"
      using ginv_xchg [OF g, of u] by (cases "u = t") (auto simp: f)
  next
    fix u show "pc s' u \<noteq> Failed"
      using ginv_not_failed [OF g, of u] by (cases "u = t") (auto simp: f)
  qed (simp_all add: f)
qed

text \<open>Lines 176 to 179: the exchange detaches the arrival segment.\<close>

lemma release_exchange_eq:
  assumes g: "ginv s arr ent base ho" and pc: "pc s t = R_xchg"
  shows "\<exists>e. tail s = Node e \<and> e \<noteq> t \<and> node_next s e = NULL \<and> pc s e = A_spin \<and> e = hd arr \<and>
           release_exchange t s =
             goto t R_aw (s\<lparr>tail := LOCKED_EMPTY, w := (w s)(t := Node e)\<rparr>)"
proof -
  have h: "ho = Some t" "holder_ok s arr ent base t" using ginv_holder_at [OF g] pc by simp_all
  then have a: "arr \<noteq> []" using pc by (simp add: holder_ok_def)
  then have "tail s = Node (hd arr)" "hd arr \<in> set (arr @ ent)"
    using chain_start [OF ginv_chain [OF g]] by simp_all
  moreover from this have "pc s (hd arr) = A_spin \<and> node_next s (hd arr) = NULL"
    using ginv_member_spin [OF g] by blast
  ultimately show ?thesis using pc by (auto simp: release_exchange_def Let_def)
qed

lemma inv_release_exchange:
  assumes g: "ginv s arr ent base ho" and pc: "pc s t = R_xchg"
  shows "ginv (release_exchange t s) [] arr LOCKED_EMPTY ho"
proof -
  have h: "ho = Some t" "holder_ok s arr ent base t" using ginv_holder_at [OF g] pc by simp_all
  then have c: "tls_successor s t = NULL" "ctx_ok s ent base t" "arr \<noteq> []"
    using pc by (simp_all add: holder_ok_def)
  have e: "ent = []" "tls_end_of_segment s t = base" using ctx_empty_arr [OF g _ c(1,2)] pc by simp_all
  have bb: "base = LOCKED_EMPTY \<or> base = Node t" using c by (simp add: ctx_ok_def)
  obtain a where a: "tail s = Node a" "a \<noteq> t"
    "release_exchange t s = goto t R_aw (s\<lparr>tail := LOCKED_EMPTY, w := (w s)(t := Node a)\<rparr>)"
    using release_exchange_eq [OF g pc] by blast
  have nw: "t \<notin> set arr" using ginv_member_spin [OF g, of t] pc by auto
  define s' where "s' = release_exchange t s"
  have f: "tail s' = LOCKED_EMPTY" "node_next s' = node_next s" "pc s' = (pc s)(t := R_aw)"
    "tail_prev s' = tail_prev s" "succ s' = succ s" "segment_end s' = segment_end s"
    "w s' t = Node a" "tls_end_of_segment s' = tls_end_of_segment s"
    "tls_successor s' = tls_successor s"
    unfolding s'_def a(3) by (simp_all add: goto_def)
  have "\<forall>x\<in>set arr. succ s x = clear_bit0 (tail_prev s x)"
    using ginv_member_spin [OF g] ginv_spin [OF g] by auto
  then have ch: "chain (succ s) arr (Node a) (clear_bit0 base)"
    using chain_clear [OF ginv_chain [OF g] c(3), of "succ s"] a(1) by simp
  show ?thesis
    unfolding s'_def [symmetric]
  proof (rule ginvI)
    fix u show "owns s' u \<longleftrightarrow> ho = Some u"
      using ginv_owns [OF g, of u] pc by (cases "u = t") (auto simp: owns_def f)
  next
    assume "ho = None" then show "tail s' = NULL \<and> [] = [] \<and> arr = []" using h by simp
  next
    fix k assume "ho = Some k"
    then have "k = t" using h by simp
    then show "holder_ok s' [] arr LOCKED_EMPTY k"
      using c(1,3) ch e bb nw by (auto simp: holder_ok_def detached_ok_def seg_def f)
  next
    show "chain (tail_prev s') [] (tail s') LOCKED_EMPTY" by (simp add: f)
  next
    show "distinct ([] @ arr)" using ginv_distinct [OF g] by simp
  next
    fix u show "u \<in> set ([] @ arr) \<longleftrightarrow> waits s' u"
      using ginv_waits [OF g, of u] e pc by (cases "u = t") (auto simp: waits_def f)
  next
    fix u assume "pc s' u = A_spin"
    then show "succ s' u = clear_bit0 (tail_prev s' u) \<and> tail_prev s' u \<noteq> NULL \<and>
        tail_prev s' u \<noteq> Node u"
      using ginv_spin [OF g, of u] by (cases "u = t") (auto simp: f)
  next
    fix u assume "pc s' u = A_xchg"
    then show "node_next s' u = NULL \<and> succ s' u = NULL \<and> segment_end s' u = Node u"
      using ginv_xchg [OF g, of u] by (cases "u = t") (auto simp: f)
  next
    fix u show "pc s' u \<noteq> Failed"
      using ginv_not_failed [OF g, of u] by (cases "u = t") (auto simp: f)
  qed
qed

text \<open>Line 180.\<close>

lemma release_assert_w_eq:
  assumes g: "ginv s arr ent base ho" and pc: "pc s t = R_aw"
  shows "release_assert_w t s = goto t R_pass s \<and>
         (\<exists>e. w s t = Node e \<and> node_next s e = NULL \<and> e \<noteq> t)"
proof -
  have h: "ho = Some t" "holder_ok s arr ent base t" using ginv_holder_at [OF g] pc by simp_all
  then have c: "ent \<noteq> []" "seg s ent (w s t) (tls_end_of_segment s t)"
    using pc by (simp_all add: holder_ok_def detached_ok_def)
  have e: "w s t = Node (hd ent)" "hd ent \<in> set ent" using seg_head [OF c(2,1)] by simp_all
  then have "pc s (hd ent) = A_spin \<and> node_next s (hd ent) = NULL"
    using ginv_member_spin [OF g, of "hd ent"] by simp
  then show ?thesis using e pc by (auto simp: release_assert_w_def)
qed

lemma inv_release_assert_w:
  assumes g: "ginv s arr ent base ho" and pc: "pc s t = R_aw"
  shows "ginv (release_assert_w t s) arr ent base ho"
proof -
  have h: "ho = Some t" "holder_ok s arr ent base t" using ginv_holder_at [OF g] pc by simp_all
  have eq: "release_assert_w t s = goto t R_pass s" using release_assert_w_eq [OF g pc] by simp
  show ?thesis
    unfolding eq h(1) using g h pc
    by (intro inv_goto [where arr' = arr]) (auto simp: holder_ok_def goto_def detached_ok_pc)
qed

text \<open>Line 183.\<close>

lemma inv_release_pass:
  assumes g: "ginv s arr ent base ho" and pc: "pc s t = R_pass"
  shows "\<exists>e. ginv (release_pass t s) arr (tl ent) base (Some e)"
proof -
  have h: "ho = Some t" "holder_ok s arr ent base t" using ginv_holder_at [OF g] pc by simp_all
  then have c: "ent \<noteq> []" "base = LOCKED_EMPTY"
    "seg s ent (w s t) (tls_end_of_segment s t)"
    using pc by (simp_all add: holder_ok_def detached_ok_def)
  have e: "w s t = Node (hd ent)" using seg_head [OF c(3,1)] by simp
  have "ginv (release_pass t s) arr (tl ent) base (Some (hd ent))"
    using g [unfolded h(1)] _ c(1,2) c(3) [unfolded e]
    by (rule inv_handoff) (simp_all add: pc release_pass_def e)
  then show ?thesis ..
qed

text \<open>Every step keeps the invariant, and every initial state has it.\<close>

lemma lock_inv_step:
  assumes "lock_inv s"
  shows "lock_inv (step t s)"
proof -
  obtain arr ent base ho where g: "ginv s arr ent base ho"
    using assms by (auto simp: lock_inv_def)
  show ?thesis
  proof (cases "pc s t")
    case Idle
    then show ?thesis using inv_reset [OF g Idle] by (auto simp: lock_inv_def step_def)
  next
    case A_xchg
    then show ?thesis
      using inv_exchange_free [OF g A_xchg] inv_exchange_held [OF g A_xchg]
      by (cases "tail s = NULL") (auto simp: lock_inv_def step_def)
  next
    case A_spin
    then show ?thesis
      using inv_spin_wait [OF g A_spin] inv_spin_handoff [OF g A_spin]
      by (cases "node_next s t = NULL") (auto simp: lock_inv_def step_def)
  next
    case Held
    then show ?thesis using inv_release_entry [OF g Held] by (auto simp: lock_inv_def step_def)
  next
    case R_asucc
    then show ?thesis
      using inv_release_assert_succ [OF g R_asucc] by (auto simp: lock_inv_def step_def)
  next
    case R_store
    then show ?thesis using inv_release_store [OF g R_store] by (auto simp: lock_inv_def step_def)
  next
    case R_load
    then show ?thesis using inv_release_load [OF g R_load] by (auto simp: lock_inv_def step_def)
  next
    case R_cas
    then show ?thesis
      using inv_release_cas_free [OF g R_cas] inv_release_cas_fail [OF g R_cas]
      by (cases "tail s = tls_end_of_segment s t") (auto simp: lock_inv_def step_def)
  next
    case R_xchg
    then show ?thesis
      using inv_release_exchange [OF g R_xchg] by (auto simp: lock_inv_def step_def)
  next
    case R_aw
    then show ?thesis
      using inv_release_assert_w [OF g R_aw] by (auto simp: lock_inv_def step_def)
  next
    case R_pass
    then show ?thesis using inv_release_pass [OF g R_pass] by (auto simp: lock_inv_def step_def)
  next
    case Failed
    then show ?thesis using assms by (simp add: step_def)
  qed
qed

lemma lock_inv_initial:
  assumes "initial s"
  shows "lock_inv s"
proof -
  have "ginv s [] [] NULL None"
    using assms by (intro ginvI) (auto simp: initial_def owns_def waits_def)
  then show ?thesis by (auto simp: lock_inv_def)
qed

lemma lock_inv_run: "lock_inv s \<Longrightarrow> lock_inv (run sched s)"
  by (induction sched arbitrary: s) (simp_all add: lock_inv_step)

subsection \<open>Reachable states\<close>

lemma reach_ginv:
  assumes "initial s0"
  obtains arr ent base ho where "ginv (run sched s0) arr ent base ho"
  using lock_inv_run [OF lock_inv_initial [OF assms], of sched] by (auto simp: lock_inv_def)

text \<open>
  No assertion of the source fails and no pointer other than a node is dereferenced, in any
  interleaving. A build that compiles the assertions out therefore behaves as this one,
  with nothing done at the two control points that are loads inside assertions.
\<close>

lemma never_failed:
  assumes "initial s0"
  shows "pc (run sched s0) t \<noteq> Failed"
proof -
  obtain arr ent base ho where "ginv (run sched s0) arr ent base ho"
    using reach_ginv [OF assms] by blast
  then show ?thesis by (rule ginv_not_failed)
qed

lemma initial_init_state: "initial init_state"
  by (simp add: initial_def init_state_def)

lemma pc_step_other: "t \<noteq> u \<Longrightarrow> pc (step u s) t = pc s t"
  by (simp add: step_defs Let_def split: label.splits ptr.splits)

lemma run_append: "run (xs @ ys) s = run ys (run xs s)"
  by (induction xs arbitrary: s) simp_all

text \<open>
  \<open>tail_prev\<close> is the value the exchange of line 103 returned, and no step changes it
  while the thread spins.
\<close>

lemma tail_prev_exchanged:
  "pc s t = A_xchg \<Longrightarrow> tail_prev (step t s) t = tail s"
  by (simp add: step_defs Let_def)

lemma tail_prev_kept:
  "pc s t = A_spin \<Longrightarrow> tail_prev (step u s) t = tail_prev s t"
  by (cases "u = t") (simp_all add: step_defs Let_def split: label.splits ptr.splits)

subsection \<open>One thread alone\<close>

lemma round_trip:
  assumes "pc s t = Idle" "tail s = NULL"
  shows "pc (run [t] s) t = A_xchg" "tail (run [t] s) = NULL"
    "pc (run [t, t] s) t = Held"
    "pc (run [t, t, t] s) t = R_load"
    "pc (run [t, t, t, t] s) t = R_cas"
    "tail (run [t, t, t, t] s) = tls_end_of_segment (run [t, t, t, t] s) t"
    "pc (run [t, t, t, t, t] s) t = Idle" "tail (run [t, t, t, t, t] s) = NULL"
  using assms by (simp_all add: step_defs Let_def)

lemma rounds_Suc: "rounds (Suc n) t s = run [t, t, t, t, t] (rounds n t s)"
proof -
  have "5 * Suc n = 5 * n + 5" by simp
  then have "replicate (5 * Suc n) t = replicate (5 * n) t @ replicate 5 t"
    by (simp only: replicate_add)
  moreover have "replicate 5 t = [t, t, t, t, t]" by (simp add: eval_nat_numeral)
  ultimately show ?thesis by (simp only: rounds_def run_append)
qed

lemma rounds_idle:
  assumes "pc s t = Idle" "tail s = NULL"
  shows "pc (rounds n t s) t = Idle \<and> tail (rounds n t s) = NULL"
proof (induction n)
  case 0
  then show ?case using assms by (simp add: rounds_def)
next
  case (Suc n)
  then show ?case using round_trip(7,8) [of "rounds n t s" t] by (simp only: rounds_Suc)
qed

section \<open>The claims\<close>

text \<open>
  In every theorem below \<open>s0\<close> is any initial state (the lock initialised, every thread
  outside the lock) and \<open>sched\<close> any interleaving of any number of threads, so that
  \<open>run sched s0\<close> ranges over all the states the program reaches.
\<close>

text \<open>
  C1 (mutual exclusion). For every number of threads and every interleaving of calls to
  acquire and release on one lock, no two critical sections overlap: while a thread \<open>t\<close> is
  between its return from acquire and its call of release (it is at \<open>Held\<close>), no other
  thread \<open>u\<close> is there, and no step of \<open>u\<close> makes the acquire of \<open>u\<close> return.
\<close>

theorem mutual_exclusion:
  assumes "initial s0" and "t \<noteq> u" and "pc (run sched s0) t = Held"
  shows "pc (run sched s0) u \<noteq> Held \<and> pc (step u (run sched s0)) u \<noteq> Held"
proof -
  obtain arr ent base ho where g: "ginv (run sched s0) arr ent base ho"
    using reach_ginv [OF assms(1)] by blast
  have 1: "pc (run sched s0) u \<noteq> Held"
    using ginv_busy_holder [OF g, of t] ginv_busy_holder [OF g, of u] assms(2,3) by auto
  have r: "step u (run sched s0) = run (sched @ [u]) s0" by (simp add: run_append)
  obtain arr' ent' base' ho' where g': "ginv (run (sched @ [u]) s0) arr' ent' base' ho'"
    using reach_ginv [OF assms(1)] by blast
  have "pc (run (sched @ [u]) s0) t = Held"
    using pc_step_other [OF assms(2), of "run sched s0"] assms(3) r by simp
  then have 2: "pc (run (sched @ [u]) s0) u \<noteq> Held"
    using ginv_busy_holder [OF g', of t] ginv_busy_holder [OF g', of u] assms(2) by auto
  show ?thesis using 1 2 r by simp
qed

text \<open>
  Thread 0 takes the free lock, thread 1 arrives and spins: thread 0 is in its critical
  section and thread 1 is not, before and after one more iteration of its spin loop.
\<close>

theorem mutual_exclusion_witness:
  "initial init_state \<and> (0::nat) \<noteq> 1 \<and> pc (run [0, 0, 1, 1, 1] init_state) 0 = Held \<and>
   pc (run [0, 0, 1, 1, 1] init_state) 1 \<noteq> Held \<and>
   pc (step 1 (run [0, 0, 1, 1, 1] init_state)) 1 \<noteq> Held"
proof -
  have i: "initial init_state" by (rule initial_init_state)
  have h: "pc (run [0, 0, 1, 1, 1] init_state) 0 = Held"
    by (simp add: step_defs init_state_def Let_def)
  show ?thesis using i h mutual_exclusion [OF i _ h, of 1] by simp
qed

text \<open>
  C2 (contended acquire). For every acquire whose exchange on \<open>tail\<close> returned a value
  other than \<open>Free\<close> (the thread is in the spin loop, \<open>tail_prev\<close> is what the exchange
  returned and is not null), the iteration of the spin loop that reads a non-null
  \<open>handoff\<close> from the thread's own node returns from acquire. If the putative successor
  \<open>tail_prev & ~1\<close> equals \<open>handoff\<close>, the context has no successor and its end of
  segment is \<open>LOCKED_EMPTY\<close>; otherwise the successor is the putative successor and the
  end of segment is \<open>handoff\<close>.
\<close>

theorem acquire_contended:
  assumes "initial s0" and "pc (run sched s0) t = A_spin"
    and "node_next (run sched s0) t \<noteq> NULL"
  shows "tail_prev (run sched s0) t \<noteq> NULL \<and>
         pc (step t (run sched s0)) t = Held \<and>
         (if clear_bit0 (tail_prev (run sched s0) t) = node_next (run sched s0) t
          then tls_successor (step t (run sched s0)) t = NULL \<and>
               tls_end_of_segment (step t (run sched s0)) t = LOCKED_EMPTY
          else tls_successor (step t (run sched s0)) t = clear_bit0 (tail_prev (run sched s0) t) \<and>
               tls_end_of_segment (step t (run sched s0)) t = node_next (run sched s0) t)"
proof -
  let ?s = "run sched s0"
  obtain arr ent base ho where g: "ginv ?s arr ent base ho"
    using reach_ginv [OF assms(1), of sched] by blast
  have pc: "pc ?s t = A_spin" and nx: "node_next ?s t \<noteq> NULL" using assms(2,3) by simp_all
  have sp: "succ ?s t = clear_bit0 (tail_prev ?s t)" "tail_prev ?s t \<noteq> NULL"
    using ginv_spin [OF g pc] by simp_all
  have "owns ?s t" using pc nx by (simp add: owns_def)
  then have "holder_ok ?s arr ent base t"
    using ginv_owns [OF g, of t] ginv_holder [of ?s arr ent base t] g by simp
  then have ns: "node_next ?s t \<noteq> Node t" using pc by (simp add: holder_ok_def)
  show ?thesis
    using sp pc by (simp add: step_def acquire_spin_handoff [OF nx ns] goto_def)
qed

text \<open>
  Two hand-offs. Thread 1 arrived behind thread 0 only: it is handed the node of thread 0,
  which is its putative successor, and quashes it. Thread 2 arrived behind thread 1: it is
  handed the node of thread 0 and keeps thread 1 as its successor.
\<close>

theorem acquire_contended_witness:
  "initial init_state \<and> pc (run [0, 0, 1, 1, 0, 0, 0, 0, 0] init_state) 1 = A_spin \<and>
   node_next (run [0, 0, 1, 1, 0, 0, 0, 0, 0] init_state) 1 \<noteq> NULL \<and>
   clear_bit0 (tail_prev (run [0, 0, 1, 1, 0, 0, 0, 0, 0] init_state) 1) =
     node_next (run [0, 0, 1, 1, 0, 0, 0, 0, 0] init_state) 1 \<and>
   tls_successor (step 1 (run [0, 0, 1, 1, 0, 0, 0, 0, 0] init_state)) 1 = NULL \<and>
   tls_end_of_segment (step 1 (run [0, 0, 1, 1, 0, 0, 0, 0, 0] init_state)) 1 = LOCKED_EMPTY \<and>
   pc (run [0, 0, 1, 1, 2, 2, 0, 0, 0, 0, 0] init_state) 2 = A_spin \<and>
   node_next (run [0, 0, 1, 1, 2, 2, 0, 0, 0, 0, 0] init_state) 2 = Node 0 \<and>
   clear_bit0 (tail_prev (run [0, 0, 1, 1, 2, 2, 0, 0, 0, 0, 0] init_state) 2) = Node 1 \<and>
   tls_successor (step 2 (run [0, 0, 1, 1, 2, 2, 0, 0, 0, 0, 0] init_state)) 2 = Node 1 \<and>
   tls_end_of_segment (step 2 (run [0, 0, 1, 1, 2, 2, 0, 0, 0, 0, 0] init_state)) 2 = Node 0"
proof -
  have i: "initial init_state" by (rule initial_init_state)
  have a: "pc (run [0, 0, 1, 1, 0, 0, 0, 0, 0] init_state) 1 = A_spin"
    "node_next (run [0, 0, 1, 1, 0, 0, 0, 0, 0] init_state) 1 \<noteq> NULL"
    "clear_bit0 (tail_prev (run [0, 0, 1, 1, 0, 0, 0, 0, 0] init_state) 1) =
     node_next (run [0, 0, 1, 1, 0, 0, 0, 0, 0] init_state) 1"
    by (simp_all add: step_defs init_state_def Let_def)
  have b: "pc (run [0, 0, 1, 1, 2, 2, 0, 0, 0, 0, 0] init_state) 2 = A_spin"
    "node_next (run [0, 0, 1, 1, 2, 2, 0, 0, 0, 0, 0] init_state) 2 = Node 0"
    "clear_bit0 (tail_prev (run [0, 0, 1, 1, 2, 2, 0, 0, 0, 0, 0] init_state) 2) = Node 1"
    by (simp_all add: step_defs init_state_def Let_def)
  have b2: "node_next (run [0, 0, 1, 1, 2, 2, 0, 0, 0, 0, 0] init_state) 2 \<noteq> NULL"
    using b(2) by simp
  show ?thesis
    using i a b acquire_contended [OF i a(1,2)] acquire_contended [OF i b(1) b2]
    by (simp del: run.simps)
qed

text \<open>
  C3 says that every release with no successor attempts the compare-and-exchange of \<open>tail\<close>
  from the end of segment to \<open>Free\<close>. The code of line 166 loads \<open>tail\<close> first and
  skips the compare-and-exchange when the load does not return the end of segment. Thread 0
  holds the lock, thread 1 has arrived: the release of thread 0, with no successor, goes
  from the load to the exchange of the slow path and is never at the compare-and-exchange.
\<close>

theorem release_skips_cas:
  "pc (run [0, 0, 1, 1] init_state) 0 = Held \<and>
   tls_successor (run [0, 0, 1, 1] init_state) 0 = NULL \<and>
   pc (step 0 (run [0, 0, 1, 1] init_state)) 0 = R_load \<and>
   pc (step 0 (step 0 (run [0, 0, 1, 1] init_state))) 0 = R_xchg \<and>
   pc (step 0 (step 0 (run [0, 0, 1, 1] init_state))) 0 \<noteq> R_cas"
  by (simp add: step_defs init_state_def Let_def)

text \<open>
  C3, amended. For every release whose context has no successor, the operation loads
  \<open>tail\<close> and attempts the compare-and-exchange of \<open>tail\<close> from the end of segment to
  \<open>Free\<close> only when the load returned the end of segment; otherwise it goes to the slow
  path. If the compare-and-exchange succeeds, \<open>tail\<close> is \<open>Free\<close> and release returns;
  no step on this path has touched the \<open>next\<close> field of any node.
\<close>

theorem release_fast_path:
  assumes "initial s0"
  shows "(pc (run sched s0) t = Held \<and> tls_successor (run sched s0) t = NULL \<longrightarrow>
            step t (run sched s0) = goto t R_load (run sched s0)) \<and>
         (pc (run sched s0) t = R_load \<longrightarrow>
            tls_successor (run sched s0) t = NULL \<and>
            step t (run sched s0) =
              goto t (if tail (run sched s0) = tls_end_of_segment (run sched s0) t
                      then R_cas else R_xchg) (run sched s0)) \<and>
         (pc (run sched s0) t = R_cas \<longrightarrow>
            tls_successor (run sched s0) t = NULL \<and>
            step t (run sched s0) =
              (if tail (run sched s0) = tls_end_of_segment (run sched s0) t
               then goto t Idle ((run sched s0)\<lparr>tail := NULL\<rparr>)
               else goto t R_xchg (run sched s0)))"
proof -
  let ?s = "run sched s0"
  obtain arr ent base ho where g: "ginv ?s arr ent base ho"
    using reach_ginv [OF assms(1), of sched] by blast
  have 1: "step t ?s = goto t R_load ?s" if "pc ?s t = Held" "tls_successor ?s t = NULL"
    using that release_entry_eq [OF g that(1)] by (simp add: step_def)
  have h: "tls_successor ?s t = NULL" if "pc ?s t = R_load \<or> pc ?s t = R_cas"
  proof -
    have "holder_ok ?s arr ent base t" using ginv_holder_at [OF g, of t] that by auto
    then show ?thesis using that by (auto simp: holder_ok_def)
  qed
  have 2: "step t ?s = goto t (if tail ?s = tls_end_of_segment ?s t then R_cas else R_xchg) ?s"
    if "pc ?s t = R_load"
    using that by (simp add: step_def release_load_def)
  have 3: "step t ?s = (if tail ?s = tls_end_of_segment ?s t
      then goto t Idle (?s\<lparr>tail := NULL\<rparr>) else goto t R_xchg ?s)"
    if "pc ?s t = R_cas"
    using that by (simp add: step_def release_cas_def)
  show ?thesis using 1 2 3 h by blast
qed

theorem release_fast_path_witness:
  "initial init_state \<and>
   pc (run [0, 0] init_state) 0 = Held \<and> tls_successor (run [0, 0] init_state) 0 = NULL \<and>
   step 0 (run [0, 0] init_state) = goto 0 R_load (run [0, 0] init_state) \<and>
   pc (run [0, 0, 0] init_state) 0 = R_load \<and>
   tail (run [0, 0, 0] init_state) = tls_end_of_segment (run [0, 0, 0] init_state) 0 \<and>
   step 0 (run [0, 0, 0] init_state) = goto 0 R_cas (run [0, 0, 0] init_state) \<and>
   pc (run [0, 0, 0, 0] init_state) 0 = R_cas \<and>
   tail (run [0, 0, 0, 0] init_state) = tls_end_of_segment (run [0, 0, 0, 0] init_state) 0 \<and>
   step 0 (run [0, 0, 0, 0] init_state) =
     goto 0 Idle ((run [0, 0, 0, 0] init_state)\<lparr>tail := NULL\<rparr>)"
proof -
  have i: "initial init_state" by (rule initial_init_state)
  have a: "pc (run [0, 0] init_state) 0 = Held" "tls_successor (run [0, 0] init_state) 0 = NULL"
    by (simp_all add: step_defs init_state_def Let_def)
  have b: "pc (run [0, 0, 0] init_state) 0 = R_load"
    "tail (run [0, 0, 0] init_state) = tls_end_of_segment (run [0, 0, 0] init_state) 0"
    by (simp_all add: step_defs init_state_def Let_def)
  have c: "pc (run [0, 0, 0, 0] init_state) 0 = R_cas"
    "tail (run [0, 0, 0, 0] init_state) = tls_end_of_segment (run [0, 0, 0, 0] init_state) 0"
    by (simp_all add: step_defs init_state_def Let_def)
  show ?thesis
    using i a b c
      release_fast_path [OF i, of "[0, 0]" 0]
      release_fast_path [OF i, of "[0, 0, 0]" 0]
      release_fast_path [OF i, of "[0, 0, 0, 0]" 0]
    by (simp del: run.simps)
qed

text \<open>
  C4 (slow path of release). For every release that reaches the exchange of line 176 (no
  successor, and the lock was not freed on the fast path), the exchange of \<open>tail\<close> with
  \<open>LOCKED_EMPTY\<close> returns the node of another thread: it is not null, not
  \<open>LOCKED_EMPTY\<close> and not the releasing thread's own node, and its \<open>next\<close> field is
  null at that moment. The assertion of line 180 then holds whatever the other threads have
  done in between, and the last step writes the end of segment into that node's \<open>next\<close>
  field and returns.
\<close>

theorem release_slow_path:
  assumes "initial s0"
  shows "(pc (run sched s0) t = R_xchg \<longrightarrow>
            tls_successor (run sched s0) t = NULL \<and>
            (\<exists>e. tail (run sched s0) = Node e \<and> e \<noteq> t \<and> node_next (run sched s0) e = NULL \<and>
               step t (run sched s0) =
                 goto t R_aw ((run sched s0)\<lparr>tail := LOCKED_EMPTY,
                    w := (w (run sched s0))(t := Node e)\<rparr>))) \<and>
         (pc (run sched s0) t = R_aw \<longrightarrow>
            step t (run sched s0) = goto t R_pass (run sched s0)) \<and>
         (pc (run sched s0) t = R_pass \<longrightarrow>
            (\<exists>e. w (run sched s0) t = Node e \<and> e \<noteq> t \<and>
               step t (run sched s0) =
                 goto t Idle ((run sched s0)\<lparr>node_next := (node_next (run sched s0))
                    (e := tls_end_of_segment (run sched s0) t)\<rparr>)))"
proof -
  let ?s = "run sched s0"
  obtain arr ent base ho where g: "ginv ?s arr ent base ho"
    using reach_ginv [OF assms(1), of sched] by blast
  have 1: "tls_successor ?s t = NULL \<and>
      (\<exists>e. tail ?s = Node e \<and> e \<noteq> t \<and> node_next ?s e = NULL \<and>
         step t ?s = goto t R_aw (?s\<lparr>tail := LOCKED_EMPTY, w := (w ?s)(t := Node e)\<rparr>))"
    if pc: "pc ?s t = R_xchg"
  proof -
    have "holder_ok ?s arr ent base t" using ginv_holder_at [OF g, of t] pc by simp
    then have "tls_successor ?s t = NULL" using pc by (simp add: holder_ok_def)
    then show ?thesis using release_exchange_eq [OF g pc] pc by (auto simp: step_def)
  qed
  have 2: "step t ?s = goto t R_pass ?s" if "pc ?s t = R_aw"
    using that release_assert_w_eq [OF g that] by (simp add: step_def)
  have 3: "\<exists>e. w ?s t = Node e \<and> e \<noteq> t \<and>
      step t ?s = goto t Idle (?s\<lparr>node_next := (node_next ?s)(e := tls_end_of_segment ?s t)\<rparr>)"
    if pc: "pc ?s t = R_pass"
  proof -
    have h: "holder_ok ?s arr ent base t" using ginv_holder_at [OF g, of t] pc by simp
    then have c: "ent \<noteq> []" "seg ?s ent (w ?s t) (tls_end_of_segment ?s t)"
      using pc by (simp_all add: holder_ok_def detached_ok_def)
    have e: "w ?s t = Node (hd ent)" "hd ent \<in> set (arr @ ent)"
      using seg_head [OF c(2,1)] by simp_all
    then have "pc ?s (hd ent) = A_spin" using ginv_member_spin [OF g] by blast
    then have "hd ent \<noteq> t" using pc by auto
    then show ?thesis using e(1) pc by (simp add: step_def release_pass_def)
  qed
  show ?thesis using 1 2 3 by blast
qed

theorem release_slow_path_witness:
  "initial init_state \<and>
   pc (run [0, 0, 1, 1, 0, 0] init_state) 0 = R_xchg \<and>
   tls_successor (run [0, 0, 1, 1, 0, 0] init_state) 0 = NULL \<and>
   (\<exists>e. tail (run [0, 0, 1, 1, 0, 0] init_state) = Node e \<and> e \<noteq> 0 \<and>
      node_next (run [0, 0, 1, 1, 0, 0] init_state) e = NULL \<and>
      step 0 (run [0, 0, 1, 1, 0, 0] init_state) =
        goto 0 R_aw ((run [0, 0, 1, 1, 0, 0] init_state)\<lparr>tail := LOCKED_EMPTY,
           w := (w (run [0, 0, 1, 1, 0, 0] init_state))(0 := Node e)\<rparr>)) \<and>
   pc (run [0, 0, 1, 1, 0, 0, 0] init_state) 0 = R_aw \<and>
   step 0 (run [0, 0, 1, 1, 0, 0, 0] init_state) =
     goto 0 R_pass (run [0, 0, 1, 1, 0, 0, 0] init_state) \<and>
   pc (run [0, 0, 1, 1, 0, 0, 0, 0] init_state) 0 = R_pass \<and>
   (\<exists>e. w (run [0, 0, 1, 1, 0, 0, 0, 0] init_state) 0 = Node e \<and> e \<noteq> 0 \<and>
      step 0 (run [0, 0, 1, 1, 0, 0, 0, 0] init_state) =
        goto 0 Idle ((run [0, 0, 1, 1, 0, 0, 0, 0] init_state)
          \<lparr>node_next := (node_next (run [0, 0, 1, 1, 0, 0, 0, 0] init_state))
             (e := tls_end_of_segment (run [0, 0, 1, 1, 0, 0, 0, 0] init_state) 0)\<rparr>))"
proof -
  have i: "initial init_state" by (rule initial_init_state)
  have a: "pc (run [0, 0, 1, 1, 0, 0] init_state) 0 = R_xchg"
    by (simp add: step_defs init_state_def Let_def)
  have b: "pc (run [0, 0, 1, 1, 0, 0, 0] init_state) 0 = R_aw"
    by (simp add: step_defs init_state_def Let_def)
  have c: "pc (run [0, 0, 1, 1, 0, 0, 0, 0] init_state) 0 = R_pass"
    by (simp add: step_defs init_state_def Let_def)
  show ?thesis
    using i a b c
      release_slow_path [OF i, of "[0, 0, 1, 1, 0, 0]" 0]
      release_slow_path [OF i, of "[0, 0, 1, 1, 0, 0, 0]" 0]
      release_slow_path [OF i, of "[0, 0, 1, 1, 0, 0, 0, 0]" 0]
    by (simp del: run.simps)
qed

text \<open>
  C5 (fast path of acquire). For every acquire in which the exchange on \<open>tail\<close> returns
  \<open>Free\<close> (the thread is at the exchange and \<open>tail\<close> is null), the step of the exchange
  itself returns from acquire, with no iteration of the spin loop: the thread is at \<open>Held\<close>,
  the context has no successor and its end of segment is the thread's own node. The
  exchange has put the node into \<open>tail\<close> and no \<open>next\<close> field has changed.
\<close>

theorem acquire_fast_path:
  assumes "initial s0" and "pc (run sched s0) t = A_xchg" and "tail (run sched s0) = NULL"
  shows "pc (step t (run sched s0)) t = Held \<and>
         tls_successor (step t (run sched s0)) t = NULL \<and>
         tls_end_of_segment (step t (run sched s0)) t = Node t \<and>
         succ (step t (run sched s0)) t = NULL \<and>
         tail (step t (run sched s0)) = Node t \<and>
         node_next (step t (run sched s0)) = node_next (run sched s0)"
proof -
  obtain arr ent base ho where g: "ginv (run sched s0) arr ent base ho"
    using reach_ginv [OF assms(1)] by blast
  have "succ (run sched s0) t = NULL \<and> segment_end (run sched s0) t = Node t"
    using ginv_xchg [OF g assms(2)] by simp
  then show ?thesis
    using assms(2,3) by (simp add: step_def acquire_exchange_free acquire_return_def goto_def)
qed

theorem acquire_fast_path_witness:
  "initial init_state \<and> pc (run [0] init_state) 0 = A_xchg \<and> tail (run [0] init_state) = NULL \<and>
   pc (step 0 (run [0] init_state)) 0 = Held \<and>
   tls_successor (step 0 (run [0] init_state)) 0 = NULL \<and>
   tls_end_of_segment (step 0 (run [0] init_state)) 0 = Node 0"
proof -
  have i: "initial init_state" by (rule initial_init_state)
  have a: "pc (run [0] init_state) 0 = A_xchg" "tail (run [0] init_state) = NULL"
    by (simp_all add: step_defs init_state_def Let_def)
  show ?thesis using i a acquire_fast_path [OF i a] by simp
qed

text \<open>
  C6 (release with a successor). For every release whose context has a successor, the
  successor is the node of another thread, the two assertions hold, and the only store of
  the operation writes the end of segment into the successor's \<open>next\<close> field; then
  release returns. \<open>goto\<close> changes the control point only: \<open>tail\<close> and every other
  \<open>next\<close> field are as they were.
\<close>

theorem release_with_successor:
  assumes "initial s0"
  shows "(pc (run sched s0) t = Held \<and> tls_successor (run sched s0) t \<noteq> NULL \<longrightarrow>
            step t (run sched s0) = goto t R_asucc (run sched s0)) \<and>
         (pc (run sched s0) t = R_asucc \<longrightarrow>
            step t (run sched s0) = goto t R_store (run sched s0)) \<and>
         (pc (run sched s0) t = R_store \<longrightarrow>
            (\<exists>e. tls_successor (run sched s0) t = Node e \<and> e \<noteq> t \<and>
               step t (run sched s0) =
                 goto t Idle ((run sched s0)\<lparr>node_next := (node_next (run sched s0))
                    (e := tls_end_of_segment (run sched s0) t)\<rparr>)))"
proof -
  let ?s = "run sched s0"
  obtain arr ent base ho where g: "ginv ?s arr ent base ho"
    using reach_ginv [OF assms(1), of sched] by blast
  have 1: "step t ?s = goto t R_asucc ?s" if "pc ?s t = Held" "tls_successor ?s t \<noteq> NULL"
    using that release_entry_eq [OF g that(1)] by (simp add: step_def)
  have 2: "step t ?s = goto t R_store ?s" if "pc ?s t = R_asucc"
    using that release_assert_succ_eq [OF g that] by (simp add: step_def)
  have 3: "\<exists>e. tls_successor ?s t = Node e \<and> e \<noteq> t \<and>
      step t ?s = goto t Idle (?s\<lparr>node_next := (node_next ?s)(e := tls_end_of_segment ?s t)\<rparr>)"
    if pc: "pc ?s t = R_store"
  proof -
    have h: "holder_ok ?s arr ent base t" using ginv_holder_at [OF g, of t] pc by simp
    then have c: "ent \<noteq> []" "seg ?s ent (tls_successor ?s t) (tls_end_of_segment ?s t)"
      using pc by (simp_all add: holder_ok_def ctx_ok_def)
    have e: "tls_successor ?s t = Node (hd ent)" "hd ent \<in> set (arr @ ent)"
      using seg_head [OF c(2,1)] by simp_all
    then have "pc ?s (hd ent) = A_spin" using ginv_member_spin [OF g] by blast
    then have "hd ent \<noteq> t" using pc by auto
    then show ?thesis using e(1) pc by (simp add: step_def release_store_def)
  qed
  show ?thesis using 1 2 3 by blast
qed

text \<open>
  Threads 1 and 2 arrive behind thread 0; thread 0 hands the lock to thread 2, whose
  successor is thread 1.
\<close>

theorem release_with_successor_witness:
  "initial init_state \<and>
   pc (run [0, 0, 1, 1, 2, 2, 0, 0, 0, 0, 0, 2] init_state) 2 = Held \<and>
   tls_successor (run [0, 0, 1, 1, 2, 2, 0, 0, 0, 0, 0, 2] init_state) 2 \<noteq> NULL \<and>
   step 2 (run [0, 0, 1, 1, 2, 2, 0, 0, 0, 0, 0, 2] init_state) =
     goto 2 R_asucc (run [0, 0, 1, 1, 2, 2, 0, 0, 0, 0, 0, 2] init_state) \<and>
   pc (run [0, 0, 1, 1, 2, 2, 0, 0, 0, 0, 0, 2, 2] init_state) 2 = R_asucc \<and>
   step 2 (run [0, 0, 1, 1, 2, 2, 0, 0, 0, 0, 0, 2, 2] init_state) =
     goto 2 R_store (run [0, 0, 1, 1, 2, 2, 0, 0, 0, 0, 0, 2, 2] init_state) \<and>
   pc (run [0, 0, 1, 1, 2, 2, 0, 0, 0, 0, 0, 2, 2, 2] init_state) 2 = R_store \<and>
   (\<exists>e. tls_successor (run [0, 0, 1, 1, 2, 2, 0, 0, 0, 0, 0, 2, 2, 2] init_state) 2 = Node e \<and>
      e \<noteq> 2 \<and>
      step 2 (run [0, 0, 1, 1, 2, 2, 0, 0, 0, 0, 0, 2, 2, 2] init_state) =
        goto 2 Idle ((run [0, 0, 1, 1, 2, 2, 0, 0, 0, 0, 0, 2, 2, 2] init_state)
          \<lparr>node_next := (node_next (run [0, 0, 1, 1, 2, 2, 0, 0, 0, 0, 0, 2, 2, 2] init_state))
             (e := tls_end_of_segment
                (run [0, 0, 1, 1, 2, 2, 0, 0, 0, 0, 0, 2, 2, 2] init_state) 2)\<rparr>))"
proof -
  have i: "initial init_state" by (rule initial_init_state)
  have a: "pc (run [0, 0, 1, 1, 2, 2, 0, 0, 0, 0, 0, 2] init_state) 2 = Held"
    "tls_successor (run [0, 0, 1, 1, 2, 2, 0, 0, 0, 0, 0, 2] init_state) 2 \<noteq> NULL"
    by (simp_all add: step_defs init_state_def Let_def)
  have b: "pc (run [0, 0, 1, 1, 2, 2, 0, 0, 0, 0, 0, 2, 2] init_state) 2 = R_asucc"
    by (simp add: step_defs init_state_def Let_def)
  have c: "pc (run [0, 0, 1, 1, 2, 2, 0, 0, 0, 0, 0, 2, 2, 2] init_state) 2 = R_store"
    by (simp add: step_defs init_state_def Let_def)
  show ?thesis
    using i a b c
      release_with_successor [OF i, of "[0, 0, 1, 1, 2, 2, 0, 0, 0, 0, 0, 2]" 2]
      release_with_successor [OF i, of "[0, 0, 1, 1, 2, 2, 0, 0, 0, 0, 0, 2, 2]" 2]
      release_with_successor [OF i, of "[0, 0, 1, 1, 2, 2, 0, 0, 0, 0, 0, 2, 2, 2]" 2]
    by (simp del: run.simps)
qed

text \<open>
  C7 (one thread alone). After \<open>reciplock_init\<close> and any number \<open>n\<close> of acquire and
  release pairs by thread \<open>t\<close> alone, \<open>tail\<close> is \<open>Free\<close> and the thread is outside the
  lock; the next acquire finds \<open>tail\<close> null at its exchange and returns from it at once,
  the next release reaches the compare-and-exchange with \<open>tail\<close> equal to the end of
  segment, so that it succeeds, and \<open>tail\<close> is \<open>Free\<close> again when it returns.
\<close>

theorem single_thread_round_trip:
  assumes "pc s t = Idle"
  shows "pc (rounds n t (reciplock_init s)) t = Idle \<and>
         tail (rounds n t (reciplock_init s)) = NULL \<and>
         pc (run [t] (rounds n t (reciplock_init s))) t = A_xchg \<and>
         tail (run [t] (rounds n t (reciplock_init s))) = NULL \<and>
         pc (run [t, t] (rounds n t (reciplock_init s))) t = Held \<and>
         pc (run [t, t, t] (rounds n t (reciplock_init s))) t = R_load \<and>
         pc (run [t, t, t, t] (rounds n t (reciplock_init s))) t = R_cas \<and>
         tail (run [t, t, t, t] (rounds n t (reciplock_init s))) =
           tls_end_of_segment (run [t, t, t, t] (rounds n t (reciplock_init s))) t \<and>
         pc (run [t, t, t, t, t] (rounds n t (reciplock_init s))) t = Idle \<and>
         tail (run [t, t, t, t, t] (rounds n t (reciplock_init s))) = NULL"
proof -
  have i: "pc (reciplock_init s) t = Idle" "tail (reciplock_init s) = NULL"
    using assms by (simp_all add: reciplock_init_def)
  have r: "pc (rounds n t (reciplock_init s)) t = Idle" "tail (rounds n t (reciplock_init s)) = NULL"
    using rounds_idle [OF i, of n] by simp_all
  show ?thesis using r round_trip [OF r] by (simp del: run.simps)
qed

theorem single_thread_round_trip_witness:
  "pc init_state 0 = Idle \<and>
   pc (rounds 2 0 (reciplock_init init_state)) 0 = Idle \<and>
   tail (rounds 2 0 (reciplock_init init_state)) = NULL \<and>
   pc (run [0, 0] (rounds 2 0 (reciplock_init init_state))) 0 = Held \<and>
   pc (run [0, 0, 0, 0] (rounds 2 0 (reciplock_init init_state))) 0 = R_cas \<and>
   tail (run [0, 0, 0, 0, 0] (rounds 2 0 (reciplock_init init_state))) = NULL"
proof -
  have a: "pc init_state 0 = Idle" by (simp add: init_state_def)
  show ?thesis using a single_thread_round_trip [OF a, of 2] by (simp del: run.simps)
qed

text \<open>
  C8 says that the backend has no working non-blocking acquire: the variant is left out of
  the backend's surface, or every call reports that it is unsupported. The source defines
  \<open>tilt_mutex_trylock\<close> with an empty body. Thread 0 holds the lock and the function is
  called: the call leaves the lock and the nodes as they are and reaches the end of the
  body, so it returns no value at all, neither \<open>false\<close> nor anything else that would
  report the variant as unsupported.
\<close>

theorem trylock_reports_nothing:
  "pc (run [0, 0] init_state) 0 = Held \<and>
   snd (tilt_mutex_trylock (run [0, 0] init_state)) = run [0, 0] init_state \<and>
   fst (tilt_mutex_trylock (run [0, 0] init_state)) = Falls_off_end \<and>
   fst (tilt_mutex_trylock (run [0, 0] init_state)) \<noteq> Returns False"
  by (simp add: tilt_mutex_trylock_def step_defs init_state_def Let_def)

text \<open>
  C9 says that acquire returns the context and release takes it as a parameter, so that
  the result of release depends on the lock and on that parameter only. The source is
  compiled with \<open>TLS_IMPLEMENTATION\<close> set to 1: \<open>reciplock_release(lock)\<close> has no context
  parameter and reads \<open>tls_successor\<close> and \<open>tls_end_of_segment\<close>. The two interleavings
  below reach states with the same \<open>tail\<close>, the same \<open>next\<close> fields and the same control
  points, thread 2 holding the lock in both; after the three next steps of its release,
  \<open>tail\<close> differs.
\<close>

theorem release_depends_on_tls:
  "tail (run [0, 0, 1, 1, 0, 0, 0, 0, 0, 1, 2, 2, 1, 1, 1, 1, 1, 2, 3, 3, 4, 4] init_state) =
   tail (run [0, 0, 1, 1, 0, 0, 0, 0, 0, 1, 3, 3, 2, 2, 1, 1, 1, 1, 1, 2, 4, 4] init_state) \<and>
   node_next (run [0, 0, 1, 1, 0, 0, 0, 0, 0, 1, 2, 2, 1, 1, 1, 1, 1, 2, 3, 3, 4, 4] init_state) =
   node_next (run [0, 0, 1, 1, 0, 0, 0, 0, 0, 1, 3, 3, 2, 2, 1, 1, 1, 1, 1, 2, 4, 4] init_state) \<and>
   pc (run [0, 0, 1, 1, 0, 0, 0, 0, 0, 1, 2, 2, 1, 1, 1, 1, 1, 2, 3, 3, 4, 4] init_state) =
   pc (run [0, 0, 1, 1, 0, 0, 0, 0, 0, 1, 3, 3, 2, 2, 1, 1, 1, 1, 1, 2, 4, 4] init_state) \<and>
   pc (run [0, 0, 1, 1, 0, 0, 0, 0, 0, 1, 2, 2, 1, 1, 1, 1, 1, 2, 3, 3, 4, 4] init_state) 2 = Held \<and>
   tail (run [2, 2, 2]
     (run [0, 0, 1, 1, 0, 0, 0, 0, 0, 1, 2, 2, 1, 1, 1, 1, 1, 2, 3, 3, 4, 4] init_state)) \<noteq>
   tail (run [2, 2, 2]
     (run [0, 0, 1, 1, 0, 0, 0, 0, 0, 1, 3, 3, 2, 2, 1, 1, 1, 1, 1, 2, 4, 4] init_state))"
  by (simp add: step_defs init_state_def Let_def fun_eq_iff)

text \<open>
  C9, amended. The context is carried in thread-local storage: when acquire returns,
  \<open>tls_successor\<close> and \<open>tls_end_of_segment\<close> hold the successor (the value returned) and
  the end of segment it computed; release takes the lock only, and what each of its steps
  does to \<open>tail\<close>, to the \<open>next\<close> fields and to the thread itself depends only on
  \<open>tail\<close>, the \<open>next\<close> fields, the two thread-local variables of the calling thread
  and its local \<open>w\<close>.
\<close>

theorem context_in_thread_local_storage:
  "(busy (pc s1 t) \<and> pc s2 t = pc s1 t \<and> tail s2 = tail s1 \<and> node_next s2 = node_next s1 \<and>
    tls_successor s2 t = tls_successor s1 t \<and>
    tls_end_of_segment s2 t = tls_end_of_segment s1 t \<and> w s2 t = w s1 t \<longrightarrow>
    pc (step t s2) t = pc (step t s1) t \<and> tail (step t s2) = tail (step t s1) \<and>
    node_next (step t s2) = node_next (step t s1) \<and>
    tls_successor (step t s2) t = tls_successor (step t s1) t \<and>
    tls_end_of_segment (step t s2) t = tls_end_of_segment (step t s1) t \<and>
    w (step t s2) t = w (step t s1) t) \<and>
   (pc s t \<noteq> Held \<and> pc (step t s) t = Held \<longrightarrow>
    tls_successor (step t s) t = succ (step t s) t \<and>
    tls_end_of_segment (step t s) t = segment_end (step t s) t)"
proof -
  have 1: "pc (step t s2) t = pc (step t s1) t \<and> tail (step t s2) = tail (step t s1) \<and>
    node_next (step t s2) = node_next (step t s1) \<and>
    tls_successor (step t s2) t = tls_successor (step t s1) t \<and>
    tls_end_of_segment (step t s2) t = tls_end_of_segment (step t s1) t \<and>
    w (step t s2) t = w (step t s1) t"
    if a: "busy (pc s1 t)" "pc s2 t = pc s1 t" "tail s2 = tail s1" "node_next s2 = node_next s1"
      "tls_successor s2 t = tls_successor s1 t"
      "tls_end_of_segment s2 t = tls_end_of_segment s1 t" "w s2 t = w s1 t"
    using a by (cases "pc s1 t") (simp_all add: step_defs Let_def split: ptr.splits)
  have 2: "tls_successor (step t s) t = succ (step t s) t \<and>
    tls_end_of_segment (step t s) t = segment_end (step t s) t"
    if b: "pc s t \<noteq> Held" "pc (step t s) t = Held"
    using b by (cases "pc s t") (simp_all add: step_defs Let_def split: ptr.splits if_splits)
  show ?thesis using 1 2 by blast
qed

text \<open>
  Thread 0 holds the free lock, in one state as the first thread ever, in the other after an
  acquire and release pair of thread 1; its release starts the same way in both. And the
  exchange of thread 0 on the free lock returns with the context in thread-local storage.
\<close>

theorem context_in_thread_local_storage_witness:
  "busy (pc (run [0, 0] init_state) 0) \<and>
   pc (run [1, 1, 1, 1, 1, 0, 0] init_state) 0 = pc (run [0, 0] init_state) 0 \<and>
   tail (run [1, 1, 1, 1, 1, 0, 0] init_state) = tail (run [0, 0] init_state) \<and>
   node_next (run [1, 1, 1, 1, 1, 0, 0] init_state) = node_next (run [0, 0] init_state) \<and>
   tls_successor (run [1, 1, 1, 1, 1, 0, 0] init_state) 0 =
     tls_successor (run [0, 0] init_state) 0 \<and>
   tls_end_of_segment (run [1, 1, 1, 1, 1, 0, 0] init_state) 0 =
     tls_end_of_segment (run [0, 0] init_state) 0 \<and>
   w (run [1, 1, 1, 1, 1, 0, 0] init_state) 0 = w (run [0, 0] init_state) 0 \<and>
   pc (step 0 (run [1, 1, 1, 1, 1, 0, 0] init_state)) 0 = pc (step 0 (run [0, 0] init_state)) 0 \<and>
   tail (step 0 (run [1, 1, 1, 1, 1, 0, 0] init_state)) = tail (step 0 (run [0, 0] init_state)) \<and>
   node_next (step 0 (run [1, 1, 1, 1, 1, 0, 0] init_state)) =
     node_next (step 0 (run [0, 0] init_state)) \<and>
   pc (run [0] init_state) 0 \<noteq> Held \<and> pc (step 0 (run [0] init_state)) 0 = Held \<and>
   tls_successor (step 0 (run [0] init_state)) 0 = succ (step 0 (run [0] init_state)) 0 \<and>
   tls_end_of_segment (step 0 (run [0] init_state)) 0 =
     segment_end (step 0 (run [0] init_state)) 0"
proof -
  have a: "busy (pc (run [0, 0] init_state) 0)"
    "pc (run [1, 1, 1, 1, 1, 0, 0] init_state) 0 = pc (run [0, 0] init_state) 0"
    "tail (run [1, 1, 1, 1, 1, 0, 0] init_state) = tail (run [0, 0] init_state)"
    "node_next (run [1, 1, 1, 1, 1, 0, 0] init_state) = node_next (run [0, 0] init_state)"
    "tls_successor (run [1, 1, 1, 1, 1, 0, 0] init_state) 0 =
       tls_successor (run [0, 0] init_state) 0"
    "tls_end_of_segment (run [1, 1, 1, 1, 1, 0, 0] init_state) 0 =
       tls_end_of_segment (run [0, 0] init_state) 0"
    "w (run [1, 1, 1, 1, 1, 0, 0] init_state) 0 = w (run [0, 0] init_state) 0"
    by (simp_all add: step_defs init_state_def Let_def fun_eq_iff)
  have b: "pc (run [0] init_state) 0 \<noteq> Held" "pc (step 0 (run [0] init_state)) 0 = Held"
    by (simp_all add: step_defs init_state_def Let_def)
  have 1: "pc (step 0 (run [1, 1, 1, 1, 1, 0, 0] init_state)) 0 =
      pc (step 0 (run [0, 0] init_state)) 0 \<and>
    tail (step 0 (run [1, 1, 1, 1, 1, 0, 0] init_state)) = tail (step 0 (run [0, 0] init_state)) \<and>
    node_next (step 0 (run [1, 1, 1, 1, 1, 0, 0] init_state)) =
      node_next (step 0 (run [0, 0] init_state))"
    using a context_in_thread_local_storage
      [of "run [0, 0] init_state" 0 "run [1, 1, 1, 1, 1, 0, 0] init_state"]
    by blast
  have 2: "tls_successor (step 0 (run [0] init_state)) 0 = succ (step 0 (run [0] init_state)) 0 \<and>
    tls_end_of_segment (step 0 (run [0] init_state)) 0 =
      segment_end (step 0 (run [0] init_state)) 0"
    using b context_in_thread_local_storage [of _ 0 _ "run [0] init_state"] by blast
  show ?thesis using a b 1 2 by blast
qed

text \<open>
  C10 (the context is well formed). From the return of acquire to the end of the matching
  release (the thread is at \<open>Held\<close> or inside release), the context in
  \<open>tls_successor\<close> and \<open>tls_end_of_segment\<close> is well formed: the end of segment is never
  null; with no successor it is \<open>LOCKED_EMPTY\<close> or the thread's own node; with a
  successor, the successor is the node of another thread and the end of segment is neither
  null nor the thread's own node.
\<close>

theorem context_well_formed:
  assumes "initial s0" and "busy (pc (run sched s0) t)"
  shows "tls_end_of_segment (run sched s0) t \<noteq> NULL \<and>
         (tls_successor (run sched s0) t = NULL \<longrightarrow>
            tls_end_of_segment (run sched s0) t = LOCKED_EMPTY \<or>
            tls_end_of_segment (run sched s0) t = Node t) \<and>
         (tls_successor (run sched s0) t \<noteq> NULL \<longrightarrow>
            (\<exists>e. tls_successor (run sched s0) t = Node e \<and> e \<noteq> t) \<and>
            tls_end_of_segment (run sched s0) t \<noteq> Node t)"
proof -
  define s where "s = run sched s0"
  obtain arr ent base ho where g: "ginv s arr ent base ho"
    using reach_ginv [OF assms(1), of sched] s_def by blast
  have b: "busy (pc s t)" using assms(2) s_def by simp
  have h: "holder_ok s arr ent base t" using ginv_holder_at [OF g b] by simp
  have d: "detached_ok s ent base t \<Longrightarrow> tls_successor s t = NULL \<and>
     (tls_end_of_segment s t = LOCKED_EMPTY \<or> tls_end_of_segment s t = Node t)"
    by (simp add: detached_ok_def)
  have c: "ctx_ok s ent base t \<Longrightarrow> tls_end_of_segment s t \<noteq> NULL \<and>
         (tls_successor s t = NULL \<longrightarrow>
            tls_end_of_segment s t = LOCKED_EMPTY \<or> tls_end_of_segment s t = Node t) \<and>
         (tls_successor s t \<noteq> NULL \<longrightarrow>
            (\<exists>e. tls_successor s t = Node e \<and> e \<noteq> t) \<and> tls_end_of_segment s t \<noteq> Node t)"
  proof -
    assume c: "ctx_ok s ent base t"
    have "\<exists>e. tls_successor s t = Node e \<and> e \<noteq> t" if n: "tls_successor s t \<noteq> NULL"
    proof -
      have sg: "ent \<noteq> []" "seg s ent (tls_successor s t) (tls_end_of_segment s t)"
        using c n by (simp_all add: ctx_ok_def)
      have "tls_successor s t = Node (hd ent)" "hd ent \<in> set (arr @ ent)"
        using seg_head [OF sg(2,1)] by simp_all
      moreover from this have "pc s (hd ent) = A_spin" using ginv_member_spin [OF g] by blast
      ultimately show ?thesis using b by auto
    qed
    then show ?thesis using c ctx_ok_mark [OF c] by (auto simp: ctx_ok_def)
  qed
  have "tls_end_of_segment s t \<noteq> NULL \<and>
         (tls_successor s t = NULL \<longrightarrow>
            tls_end_of_segment s t = LOCKED_EMPTY \<or> tls_end_of_segment s t = Node t) \<and>
         (tls_successor s t \<noteq> NULL \<longrightarrow>
            (\<exists>e. tls_successor s t = Node e \<and> e \<noteq> t) \<and> tls_end_of_segment s t \<noteq> Node t)"
    using h b c d by (cases "pc s t") (auto simp: holder_ok_def)
  then show ?thesis by (simp add: s_def)
qed

text \<open>
  Thread 0 on the free lock has no successor and its own node as end of segment; thread 2,
  handed the lock with thread 1 behind it, has thread 1 as successor and the node of
  thread 0 as end of segment.
\<close>

theorem context_well_formed_witness:
  "initial init_state \<and> busy (pc (run [0, 0] init_state) 0) \<and>
   tls_successor (run [0, 0] init_state) 0 = NULL \<and>
   tls_end_of_segment (run [0, 0] init_state) 0 \<noteq> NULL \<and>
   (tls_end_of_segment (run [0, 0] init_state) 0 = LOCKED_EMPTY \<or>
    tls_end_of_segment (run [0, 0] init_state) 0 = Node 0) \<and>
   busy (pc (run [0, 0, 1, 1, 2, 2, 0, 0, 0, 0, 0, 2] init_state) 2) \<and>
   tls_successor (run [0, 0, 1, 1, 2, 2, 0, 0, 0, 0, 0, 2] init_state) 2 \<noteq> NULL \<and>
   (\<exists>e. tls_successor (run [0, 0, 1, 1, 2, 2, 0, 0, 0, 0, 0, 2] init_state) 2 = Node e \<and> e \<noteq> 2) \<and>
   tls_end_of_segment (run [0, 0, 1, 1, 2, 2, 0, 0, 0, 0, 0, 2] init_state) 2 \<noteq> NULL \<and>
   tls_end_of_segment (run [0, 0, 1, 1, 2, 2, 0, 0, 0, 0, 0, 2] init_state) 2 \<noteq> Node 2"
proof -
  have i: "initial init_state" by (rule initial_init_state)
  have a: "busy (pc (run [0, 0] init_state) 0)"
    "tls_successor (run [0, 0] init_state) 0 = NULL"
    by (simp_all add: step_defs init_state_def Let_def)
  have b: "busy (pc (run [0, 0, 1, 1, 2, 2, 0, 0, 0, 0, 0, 2] init_state) 2)"
    "tls_successor (run [0, 0, 1, 1, 2, 2, 0, 0, 0, 0, 0, 2] init_state) 2 \<noteq> NULL"
    by (simp_all add: step_defs init_state_def Let_def)
  show ?thesis
    using i a b context_well_formed [OF i a(1)] context_well_formed [OF i b(1)]
    by (simp del: run.simps)
qed

end
